theory Spec2Isabelle
  imports Main "HOL-Library.AList" "HOL-Library.Product_Lexorder"
begin

section \<open>Data model\<close>

text \<open>
  The solver of \<^verbatim>\<open>generate.py\<close> works on a \<^verbatim>\<open>Crossword\<close> object whose class, like
  the class \<^verbatim>\<open>Variable\<close> of the slots, lives in the module \<^verbatim>\<open>crossword\<close>. The solver
  reads four things of it: the set of variables, the set of words, the dictionary
  \<^verbatim>\<open>overlaps\<close> keyed by pairs of variables, and the method \<^verbatim>\<open>neighbors\<close>. They are the
  fields of a record and so parameters of every operation.

  A Python set is modelled by the list of its elements in iteration order (a copy of
  a set iterates as the set does), a dictionary by an association list in insertion
  order (\<open>map_of\<close> reads it, \<open>AList.update\<close> writes it: an existing key keeps its place,
  a new key goes to the end). A raised exception is the \<open>Inl\<close> of a sum type.
\<close>

text \<open>Modelled from the spec: the class \<^verbatim>\<open>Variable\<close>. A slot has its starting cell, one of
  two directions and a length, and two slots are equal when these are.\<close>

datatype direction = ACROSS | DOWN

record variable =
  var_i :: nat
  var_j :: nat
  var_direction :: direction
  var_length :: nat

text \<open>Modelled from the spec: the class \<^verbatim>\<open>Crossword\<close>, as far as the solver reads it.
  \<open>overlaps cw (x, y) = None\<close> is a missing key of the dictionary (\<^verbatim>\<open>KeyError\<close>),
  \<open>Some None\<close> is the stored value \<^verbatim>\<open>None\<close> (no shared cell), \<open>Some (Some (i, j))\<close> the
  stored pair of indices: character \<open>i\<close> of \<open>x\<close> is character \<open>j\<close> of \<open>y\<close>.\<close>

record crossword =
  variables :: "variable list"
  words :: "string list"
  overlaps :: "variable \<times> variable \<Rightarrow> (nat \<times> nat) option option"
  neighbors :: "variable \<Rightarrow> variable list"

datatype error = KeyError | IndexError | TypeError | RecursionError

type_synonym domains = "(variable \<times> string list) list"
type_synonym assignment = "(variable \<times> string) list"

text \<open>\<^verbatim>\<open>__init__\<close>: every variable starts with a copy of the whole vocabulary.\<close>

definition init_domains :: "crossword \<Rightarrow> domains" where
  "init_domains cw = map (\<lambda>var. (var, words cw)) (variables cw)"

text \<open>\<^verbatim>\<open>self.domains[var].remove(word)\<close>: both the dictionary lookup and the removal from
  the set raise \<^verbatim>\<open>KeyError\<close> on a missing element.\<close>

definition domain_remove :: "variable \<Rightarrow> string \<Rightarrow> domains \<Rightarrow> error + domains" where
  "domain_remove var word doms =
     (case map_of doms var of
        None \<Rightarrow> Inl KeyError
      | Some d \<Rightarrow> if word \<in> set d then Inr (AList.update var (removeAll word d) doms)
                  else Inl KeyError)"

section \<open>Consistency engine\<close>

subsection \<open>Node consistency\<close>

fun enforce_node_consistency_words ::
  "variable \<Rightarrow> string list \<Rightarrow> domains \<Rightarrow> error + domains" where
  "enforce_node_consistency_words var [] doms = Inr doms"
| "enforce_node_consistency_words var (word # ws) doms =
     (if length word \<noteq> var_length var
      then (case domain_remove var word doms of
              Inl e \<Rightarrow> Inl e
            | Inr doms' \<Rightarrow> enforce_node_consistency_words var ws doms')
      else enforce_node_consistency_words var ws doms)"

fun enforce_node_consistency_vars :: "variable list \<Rightarrow> domains \<Rightarrow> error + domains" where
  "enforce_node_consistency_vars [] doms = Inr doms"
| "enforce_node_consistency_vars (var # vs) doms =
     (case map_of doms var of
        None \<Rightarrow> Inl KeyError
      | Some d \<Rightarrow>
          (case enforce_node_consistency_words var d doms of
             Inl e \<Rightarrow> Inl e
           | Inr doms' \<Rightarrow> enforce_node_consistency_vars vs doms'))"

definition enforce_node_consistency :: "crossword \<Rightarrow> domains \<Rightarrow> error + domains" where
  "enforce_node_consistency cw doms = enforce_node_consistency_vars (variables cw) doms"

subsection \<open>Arc revision\<close>

text \<open>\<^verbatim>\<open>all(y_word[j] != charx for y_word in self.domains[y])\<close>: stops at the first word
  that agrees, raises \<^verbatim>\<open>IndexError\<close> on a word too short to have index \<open>j\<close>.\<close>

fun all_differ :: "nat \<Rightarrow> char \<Rightarrow> string list \<Rightarrow> error + bool" where
  "all_differ j charx [] = Inr True"
| "all_differ j charx (y_word # ys) =
     (if length y_word \<le> j then Inl IndexError
      else if y_word ! j \<noteq> charx then all_differ j charx ys
      else Inr False)"

fun revise_words ::
  "variable \<Rightarrow> variable \<Rightarrow> nat \<Rightarrow> nat \<Rightarrow> string list \<Rightarrow> bool \<times> domains \<Rightarrow> error + bool \<times> domains"
where
  "revise_words x y i j [] (revision, doms) = Inr (revision, doms)"
| "revise_words x y i j (word # ws) (revision, doms) =
     (if length word \<le> i then Inl IndexError
      else case map_of doms y of
        None \<Rightarrow> Inl KeyError
      | Some dy \<Rightarrow>
          (case all_differ j (word ! i) dy of
             Inl e \<Rightarrow> Inl e
           | Inr unsupported \<Rightarrow>
               if unsupported
               then (case domain_remove x word doms of
                       Inl e \<Rightarrow> Inl e
                     | Inr doms' \<Rightarrow> revise_words x y i j ws (True, doms'))
               else revise_words x y i j ws (revision, doms)))"

definition revise :: "crossword \<Rightarrow> variable \<Rightarrow> variable \<Rightarrow> domains \<Rightarrow> error + bool \<times> domains" where
  "revise cw x y doms =
     (case overlaps cw (x, y) of
        None \<Rightarrow> Inl KeyError
      | Some None \<Rightarrow> Inr (False, doms)
      | Some (Some (i, j)) \<Rightarrow>
          (case map_of doms x of
             None \<Rightarrow> Inl KeyError
           | Some dx \<Rightarrow> revise_words x y i j dx (False, doms)))"

subsection \<open>AC-3 propagation\<close>

text \<open>The loop of \<^verbatim>\<open>ac3\<close> ends because every pass either shortens the queue and leaves the
  domains alone, or removes a word from a domain. The measure is the total number of
  words in the domain store.\<close>

definition domains_size :: "domains \<Rightarrow> nat" where
  "domains_size doms = sum_list (map (\<lambda>(var, d). length d) doms)"

lemma length_removeAll_less: "w \<in> set d \<Longrightarrow> length (removeAll w d) < length d"
  by (induction d) (auto simp: less_Suc_eq_le)

lemma update_size_less:
  "map_of doms x = Some d \<Longrightarrow> length d' < length d \<Longrightarrow>
   domains_size (AList.update x d' doms) < domains_size doms"
  by (induction doms) (auto simp: domains_size_def split: if_splits)

lemma domain_remove_size:
  "domain_remove x w doms = Inr doms' \<Longrightarrow> domains_size doms' < domains_size doms"
  by (auto simp: domain_remove_def update_size_less length_removeAll_less
      split: option.splits if_splits)

lemma revise_words_size:
  "revise_words x y i j ws (r, doms) = Inr (r', doms') \<Longrightarrow>
   (r' = r \<and> doms' = doms) \<or> (r' \<and> domains_size doms' < domains_size doms)"
proof (induction ws arbitrary: r doms)
  case Nil
  then show ?case by simp
next
  case (Cons w ws)
  then show ?case
    by (fastforce split: if_splits option.splits sum.splits dest: domain_remove_size)
qed

lemma revise_size:
  "revise cw x y doms = Inr (r, doms') \<Longrightarrow>
   (\<not> r \<and> doms' = doms) \<or> (r \<and> domains_size doms' < domains_size doms)"
  by (auto simp: revise_def split: option.splits dest: revise_words_size)

function ac3_loop ::
  "crossword \<Rightarrow> (variable \<times> variable) list \<Rightarrow> domains \<Rightarrow> error + bool \<times> domains" where
  "ac3_loop cw [] doms = Inr (True, doms)"
| "ac3_loop cw ((x, y) # arcs) doms =
     (case revise cw x y doms of
        Inl e \<Rightarrow> Inl e
      | Inr (revised, doms') \<Rightarrow>
          if revised
          then (case map_of doms' x of
                  None \<Rightarrow> Inl KeyError
                | Some dx \<Rightarrow>
                    if dx = [] then Inr (False, doms')
                    else if y \<in> set (neighbors cw x)
                    then ac3_loop cw
                           (arcs @ map (\<lambda>z. (z, x)) (removeAll y (neighbors cw x))) doms'
                    else Inl KeyError)
          else ac3_loop cw arcs doms')"
  by pat_completeness auto
termination
proof (relation "measures [\<lambda>(cw, arcs, doms). domains_size doms, \<lambda>(cw, arcs, doms). length arcs]")
  show "wf (measures [\<lambda>(cw, arcs, doms). domains_size doms, \<lambda>(cw, arcs, doms). length arcs])"
    by simp
next
  fix cw x y arcs doms p revised doms'
  assume "revise cw x y doms = Inr p" "(revised, doms') = p" "revised"
  then show "((cw, arcs @ map (\<lambda>z. (z, x)) (removeAll y (neighbors cw x)), doms'),
              cw, (x, y) # arcs, doms)
       \<in> measures [\<lambda>(cw, arcs, doms). domains_size doms, \<lambda>(cw, arcs, doms). length arcs]"
    using revise_size[of cw x y doms revised doms'] by auto
next
  fix cw x y arcs doms p revised doms'
  assume "revise cw x y doms = Inr p" "(revised, doms') = p" "\<not> revised"
  then show "((cw, arcs, doms'), cw, (x, y) # arcs, doms)
       \<in> measures [\<lambda>(cw, arcs, doms). domains_size doms, \<lambda>(cw, arcs, doms). length arcs]"
    using revise_size[of cw x y doms revised doms'] by auto
qed

text \<open>The initial queue when no arcs are given: every \<open>(var, neighbor)\<close>, variable by
  variable.\<close>

definition all_arcs :: "crossword \<Rightarrow> (variable \<times> variable) list" where
  "all_arcs cw =
     concat (map (\<lambda>var. map (\<lambda>neighbor. (var, neighbor)) (neighbors cw var)) (variables cw))"

definition ac3 ::
  "crossword \<Rightarrow> (variable \<times> variable) list option \<Rightarrow> domains \<Rightarrow> error + bool \<times> domains" where
  "ac3 cw arcs doms =
     ac3_loop cw (case arcs of None \<Rightarrow> all_arcs cw | Some given \<Rightarrow> given) doms"

section \<open>Backtracking search\<close>

text \<open>The truth value of \<^verbatim>\<open>assignment.get(var, False)\<close>: a missing key and the empty string
  are both false.\<close>

definition assigned :: "assignment \<Rightarrow> variable \<Rightarrow> bool" where
  "assigned a var = (case map_of a var of None \<Rightarrow> False | Some word \<Rightarrow> word \<noteq> [])"

definition assignment_complete :: "crossword \<Rightarrow> assignment \<Rightarrow> bool" where
  "assignment_complete cw a = list_all (assigned a) (variables cw)"

subsection \<open>Consistency check\<close>

fun consistent_neighbors ::
  "crossword \<Rightarrow> assignment \<Rightarrow> variable \<Rightarrow> string \<Rightarrow> variable list \<Rightarrow> error + bool" where
  "consistent_neighbors cw a key val [] = Inr True"
| "consistent_neighbors cw a key val (neighbor # ns) =
     (case overlaps cw (key, neighbor) of
        None \<Rightarrow> Inl KeyError
      | Some None \<Rightarrow> consistent_neighbors cw a key val ns
      | Some (Some (i, j)) \<Rightarrow>
          (case map_of a neighbor of
             None \<Rightarrow> consistent_neighbors cw a key val ns
           | Some neig_value \<Rightarrow>
               if neig_value = [] then consistent_neighbors cw a key val ns
               else if length val \<le> i \<or> length neig_value \<le> j then Inl IndexError
               else if val ! i \<noteq> neig_value ! j then Inr False
               else consistent_neighbors cw a key val ns))"

fun consistent_items :: "crossword \<Rightarrow> assignment \<Rightarrow> (variable \<times> string) list \<Rightarrow> error + bool" where
  "consistent_items cw a [] = Inr True"
| "consistent_items cw a ((key, val) # items) =
     (if length val \<noteq> var_length key then Inr False
      else case consistent_neighbors cw a key val (neighbors cw key) of
        Inl e \<Rightarrow> Inl e
      | Inr ok \<Rightarrow> if ok then consistent_items cw a items else Inr False)"

text \<open>After the loop the set of the values is compared in size with the list of the
  values.\<close>

definition consistent :: "crossword \<Rightarrow> assignment \<Rightarrow> error + bool" where
  "consistent cw a =
     (case consistent_items cw a a of
        Inl e \<Rightarrow> Inl e
      | Inr ok \<Rightarrow>
          if \<not> ok then Inr False
          else if length (remdups (map snd a)) \<noteq> length (map snd a) then Inr False
          else Inr True)"

subsection \<open>Value ordering\<close>

text \<open>\<^verbatim>\<open>sorted(xs, key=f)\<close> computes the key of every element, in order, and then sorts
  stably; an exception in a key ends the call.\<close>

fun keyed :: "('a \<Rightarrow> error + 'k) \<Rightarrow> 'a list \<Rightarrow> error + ('k \<times> 'a) list" where
  "keyed f [] = Inr []"
| "keyed f (x # xs) =
     (case f x of
        Inl e \<Rightarrow> Inl e
      | Inr k \<Rightarrow> (case keyed f xs of Inl e \<Rightarrow> Inl e | Inr ks \<Rightarrow> Inr ((k, x) # ks)))"

definition sorted_by :: "('a \<Rightarrow> error + 'k::linorder) \<Rightarrow> 'a list \<Rightarrow> error + 'a list" where
  "sorted_by f xs =
     (case keyed f xs of Inl e \<Rightarrow> Inl e | Inr ks \<Rightarrow> Inr (map snd (sort_key fst ks)))"

fun count_conflicts :: "nat \<Rightarrow> nat \<Rightarrow> string \<Rightarrow> string list \<Rightarrow> nat \<Rightarrow> error + nat" where
  "count_conflicts i j val [] n = Inr n"
| "count_conflicts i j val (word # ws) n =
     (if length val \<le> i \<or> length word \<le> j then Inl IndexError
      else count_conflicts i j val ws (if val ! i \<noteq> word ! j then n + 1 else n))"

fun least_constraning_loop ::
  "crossword \<Rightarrow> domains \<Rightarrow> variable \<Rightarrow> string \<Rightarrow> variable list \<Rightarrow> nat \<Rightarrow> error + nat" where
  "least_constraning_loop cw doms var val [] n = Inr n"
| "least_constraning_loop cw doms var val (z # zs) n =
     (case overlaps cw (var, z) of
        None \<Rightarrow> Inl KeyError
      | Some None \<Rightarrow> Inl TypeError
      | Some (Some (i, j)) \<Rightarrow>
          (case map_of doms z of
             None \<Rightarrow> Inl KeyError
           | Some dz \<Rightarrow>
               (case count_conflicts i j val dz n of
                  Inl e \<Rightarrow> Inl e
                | Inr n' \<Rightarrow> least_constraning_loop cw doms var val zs n')))"

definition least_constraning :: "crossword \<Rightarrow> domains \<Rightarrow> variable \<Rightarrow> string \<Rightarrow> error + nat" where
  "least_constraning cw doms var val =
     least_constraning_loop cw doms var val (neighbors cw var) 0"

definition order_domain_values ::
  "crossword \<Rightarrow> domains \<Rightarrow> variable \<Rightarrow> assignment \<Rightarrow> error + string list" where
  "order_domain_values cw doms var a =
     (case map_of doms var of
        None \<Rightarrow> Inl KeyError
      | Some domain \<Rightarrow> sorted_by (least_constraning cw doms var) domain)"

subsection \<open>Variable selection\<close>

text \<open>The sort key is the Python list \<^verbatim>\<open>[len(domain), len(neighbors)]\<close>; lists of two numbers
  compare as pairs, lexicographically.\<close>

definition select_key :: "crossword \<Rightarrow> domains \<Rightarrow> variable \<Rightarrow> error + nat \<times> nat" where
  "select_key cw doms x =
     (case map_of doms x of
        None \<Rightarrow> Inl KeyError
      | Some d \<Rightarrow> Inr (length d, length (neighbors cw x)))"

definition select_unassigned_variable ::
  "crossword \<Rightarrow> domains \<Rightarrow> assignment \<Rightarrow> error + variable option" where
  "select_unassigned_variable cw doms a =
     (case sorted_by (select_key cw doms) (variables cw) of
        Inl e \<Rightarrow> Inl e
      | Inr vs \<Rightarrow> Inr (find (\<lambda>var. \<not> assigned a var) vs))"

subsection \<open>Recursive search\<close>

text \<open>
  \<open>backtrack\<close> returns the value of the Python call together with the assignment
  dictionary as the call leaves it, since the dictionary is shared by all activations
  and written in place. The number \<open>depth\<close> is how many nested activations of
  \<^verbatim>\<open>backtrack\<close> the interpreter still allows; Python raises \<^verbatim>\<open>RecursionError\<close> beyond its
  recursion limit. \<open>backtrack_values\<close> is the \<^verbatim>\<open>for value in ...\<close> loop.
  A variable \<^verbatim>\<open>None\<close> from the selection makes \<^verbatim>\<open>self.domains[var]\<close> raise \<^verbatim>\<open>KeyError\<close>.
  \<^verbatim>\<open>if result\<close> is false for \<^verbatim>\<open>None\<close> and for an empty dictionary.
\<close>

fun backtrack ::
  "crossword \<Rightarrow> domains \<Rightarrow> nat \<Rightarrow> assignment \<Rightarrow> error + assignment option \<times> assignment"
and backtrack_values ::
  "crossword \<Rightarrow> domains \<Rightarrow> nat \<Rightarrow> variable \<Rightarrow> string list \<Rightarrow> assignment
     \<Rightarrow> error + assignment option \<times> assignment"
where
  "backtrack cw doms 0 a = Inl RecursionError"
| "backtrack cw doms (Suc depth) a =
     (if assignment_complete cw a then Inr (Some a, a)
      else case select_unassigned_variable cw doms a of
        Inl e \<Rightarrow> Inl e
      | Inr None \<Rightarrow> Inl KeyError
      | Inr (Some var) \<Rightarrow>
          (case order_domain_values cw doms var a of
             Inl e \<Rightarrow> Inl e
           | Inr vals \<Rightarrow> backtrack_values cw doms depth var vals a))"
| "backtrack_values cw doms depth var [] a = Inr (None, a)"
| "backtrack_values cw doms depth var (val # rest) a =
     (case consistent cw (AList.update var val a) of
        Inl e \<Rightarrow> Inl e
      | Inr ok \<Rightarrow>
          if ok
          then (case backtrack cw doms depth (AList.update var val a) of
                  Inl e \<Rightarrow> Inl e
                | Inr (result, a') \<Rightarrow>
                    if result \<noteq> None \<and> result \<noteq> Some [] then Inr (result, a')
                    else backtrack_values cw doms depth var rest (AList.update var [] a'))
          else backtrack_values cw doms depth var rest a)"

subsection \<open>Top level\<close>

text \<open>\<^verbatim>\<open>solve\<close> runs on the domain store of the creator; \<open>solve_crossword\<close> is what
  \<^verbatim>\<open>main\<close> does: build the creator, then solve.\<close>

definition solve :: "crossword \<Rightarrow> nat \<Rightarrow> domains \<Rightarrow> error + assignment option" where
  "solve cw limit doms =
     (case enforce_node_consistency cw doms of
        Inl e \<Rightarrow> Inl e
      | Inr doms1 \<Rightarrow>
          (case ac3 cw None doms1 of
             Inl e \<Rightarrow> Inl e
           | Inr (arc_consistent, doms2) \<Rightarrow>
               (case backtrack cw doms2 limit [] of
                  Inl e \<Rightarrow> Inl e
                | Inr (result, a) \<Rightarrow> Inr result)))"

definition solve_crossword :: "crossword \<Rightarrow> nat \<Rightarrow> error + assignment option" where
  "solve_crossword cw limit = solve cw limit (init_domains cw)"

section \<open>A worked grid\<close>

text \<open>
  The grid with the structure
  \<^verbatim>\<open>__\<close>, \<^verbatim>\<open>_#\<close>, \<^verbatim>\<open>__\<close>
  has three slots: \<open>slot_A\<close> across the top row, \<open>slot_B\<close> across the bottom row and
  \<open>slot_C\<close> down the left column. \<open>slot_C\<close> shares its first cell with the first cell of
  \<open>slot_A\<close> and its third cell with the first cell of \<open>slot_B\<close>. The list of variables
  and the vocabulary are parameters.
\<close>

definition slot_A :: variable where
  "slot_A = \<lparr>var_i = 0, var_j = 0, var_direction = ACROSS, var_length = 2\<rparr>"

definition slot_B :: variable where
  "slot_B = \<lparr>var_i = 2, var_j = 0, var_direction = ACROSS, var_length = 2\<rparr>"

definition slot_C :: variable where
  "slot_C = \<lparr>var_i = 0, var_j = 0, var_direction = DOWN, var_length = 3\<rparr>"

definition grid_overlaps :: "variable \<times> variable \<Rightarrow> (nat \<times> nat) option option" where
  "grid_overlaps = map_of
     [((slot_A, slot_B), None), ((slot_B, slot_A), None),
      ((slot_A, slot_C), Some (0, 0)), ((slot_C, slot_A), Some (0, 0)),
      ((slot_B, slot_C), Some (0, 2)), ((slot_C, slot_B), Some (2, 0))]"

definition grid_neighbors :: "variable \<Rightarrow> variable list" where
  "grid_neighbors v =
     (if v = slot_C then [slot_A, slot_B]
      else if v = slot_A \<or> v = slot_B then [slot_C]
      else [])"

definition grid :: "variable list \<Rightarrow> string list \<Rightarrow> crossword" where
  "grid vs ws = \<lparr>variables = vs, words = ws,
     overlaps = grid_overlaps, neighbors = grid_neighbors\<rparr>"

definition cw1 :: crossword where
  "cw1 = grid [slot_A, slot_B, slot_C]
           [''AT'', ''BE'', ''PI'', ''PA'', ''AHA'', ''AVA'', ''BOP'']"

text \<open>The domain store of \<open>cw1\<close> after node consistency, and after AC-3.\<close>

definition cw1_doms0 :: domains where
  "cw1_doms0 = [(slot_A, [''AT'', ''BE'', ''PI'', ''PA'']),
            (slot_B, [''AT'', ''BE'', ''PI'', ''PA'']),
            (slot_C, [''AHA'', ''AVA'', ''BOP''])]"

definition cw1_doms1 :: domains where
  "cw1_doms1 = [(slot_A, [''AT'', ''BE'']),
            (slot_B, [''AT'', ''PI'', ''PA'']),
            (slot_C, [''AHA'', ''AVA'', ''BOP''])]"

lemma cw1_node_consistency: "enforce_node_consistency cw1 (init_domains cw1) = Inr cw1_doms0"
  by code_simp

lemma cw1_ac3: "ac3 cw1 None cw1_doms0 = Inr (True, cw1_doms1)"
  by code_simp

section \<open>Domains only shrink\<close>

definition node_consistent :: "crossword \<Rightarrow> domains \<Rightarrow> bool" where
  "node_consistent cw doms =
     (\<forall>v \<in> set (variables cw).
        case map_of doms v of
          None \<Rightarrow> True
        | Some d \<Rightarrow> (\<forall>w \<in> set d. length w = var_length v))"

definition only_removes :: "domains \<Rightarrow> domains \<Rightarrow> bool" where
  "only_removes doms doms' =
     list_all2 (\<lambda>p q. fst q = fst p \<and> set (snd q) \<subseteq> set (snd p)) doms doms'"

lemma only_removes_refl: "only_removes doms doms"
  by (simp add: only_removes_def list_all2_refl)

lemma only_removes_trans:
  "only_removes a b \<Longrightarrow> only_removes b c \<Longrightarrow> only_removes a c"
  unfolding only_removes_def
proof (induction a b arbitrary: c rule: list_all2_induct)
  case Nil
  then show ?case by simp
next
  case (Cons x xs y ys)
  then show ?case by (cases c) auto
qed

lemma only_removes_update:
  "map_of doms v = Some d \<Longrightarrow> set d' \<subseteq> set d \<Longrightarrow> only_removes doms (AList.update v d' doms)"
  unfolding only_removes_def
  by (induction doms) (auto simp: list_all2_refl split: if_splits)

lemma only_removes_map_of:
  "only_removes doms doms' \<Longrightarrow> map_of doms' v = Some d' \<Longrightarrow>
   \<exists>d. map_of doms v = Some d \<and> set d' \<subseteq> set d"
  unfolding only_removes_def
  by (induction doms doms' rule: list_all2_induct) (auto split: if_splits)

lemma only_removes_keys: "only_removes doms doms' \<Longrightarrow> map fst doms' = map fst doms"
  unfolding only_removes_def
  by (induction doms doms' rule: list_all2_induct) auto

lemma domain_remove_only_removes:
  "domain_remove v w doms = Inr doms' \<Longrightarrow> only_removes doms doms'"
  by (auto simp: domain_remove_def only_removes_update split: option.splits if_splits)

lemma node_consistent_only_removes:
  "node_consistent cw doms \<Longrightarrow> only_removes doms doms' \<Longrightarrow> node_consistent cw doms'"
  unfolding node_consistent_def
  by (fastforce split: option.splits dest: only_removes_map_of)


lemma enforce_words_only_removes:
  "enforce_node_consistency_words var ws doms = Inr doms' \<Longrightarrow> only_removes doms doms'"
proof (induction ws arbitrary: doms)
  case Nil
  then show ?case by (simp add: only_removes_refl)
next
  case (Cons w ws)
  then show ?case
    by (auto split: if_splits sum.splits
        dest!: domain_remove_only_removes intro: only_removes_trans)
qed

lemma domain_remove_absent:
  "domain_remove v w doms = Inr doms' \<Longrightarrow> map_of doms' v = Some d' \<Longrightarrow> w \<notin> set d'"
  by (auto simp: domain_remove_def AList.update_conv' split: option.splits if_splits)

lemma enforce_words_lengths:
  "enforce_node_consistency_words var ws doms = Inr doms' \<Longrightarrow>
   map_of doms' var = Some d' \<Longrightarrow> w \<in> set d' \<Longrightarrow> w \<in> set ws \<Longrightarrow>
   length w = var_length var"
proof (induction ws arbitrary: doms)
  case Nil
  then show ?case by simp
next
  case (Cons u ws)
  show ?case
  proof (cases "length u \<noteq> var_length var")
    case True
    then obtain doms1 where r: "domain_remove var u doms = Inr doms1"
      and rest: "enforce_node_consistency_words var ws doms1 = Inr doms'"
      using Cons.prems(1) by (auto split: sum.splits)
    from enforce_words_only_removes[OF rest] Cons.prems(2)
    obtain d1 where d1: "map_of doms1 var = Some d1" "set d' \<subseteq> set d1"
      by (blast dest: only_removes_map_of)
    from domain_remove_absent[OF r d1(1)] d1(2) Cons.prems(3) have "w \<noteq> u" by auto
    with Cons.prems(4) have "w \<in> set ws" by simp
    from Cons.IH[OF rest Cons.prems(2,3) this] show ?thesis .
  next
    case False
    with Cons.prems(1) have rest: "enforce_node_consistency_words var ws doms = Inr doms'"
      by simp
    show ?thesis
    proof (cases "w = u")
      case True
      with False show ?thesis by simp
    next
      case False
      with Cons.prems(4) have "w \<in> set ws" by simp
      from Cons.IH[OF rest Cons.prems(2,3) this] show ?thesis .
    qed
  qed
qed

definition domain_ok :: "domains \<Rightarrow> variable \<Rightarrow> bool" where
  "domain_ok doms v =
     (case map_of doms v of None \<Rightarrow> True | Some d \<Rightarrow> (\<forall>w \<in> set d. length w = var_length v))"

lemma domain_ok_only_removes:
  "domain_ok doms v \<Longrightarrow> only_removes doms doms' \<Longrightarrow> domain_ok doms' v"
  unfolding domain_ok_def
  by (fastforce split: option.splits dest: only_removes_map_of)

lemma enforce_words_domain_ok:
  assumes "map_of doms var = Some d"
    and "enforce_node_consistency_words var d doms = Inr doms'"
  shows "domain_ok doms' var"
proof -
  have "length w = var_length var" if "map_of doms' var = Some d'" "w \<in> set d'" for d' w
  proof -
    from only_removes_map_of[OF enforce_words_only_removes[OF assms(2)] that(1)] assms(1) that(2)
    have "w \<in> set d" by auto
    from enforce_words_lengths[OF assms(2) that this] show ?thesis .
  qed
  then show ?thesis by (auto simp: domain_ok_def split: option.splits)
qed

lemma enforce_vars_post:
  "enforce_node_consistency_vars vs doms = Inr doms' \<Longrightarrow>
   only_removes doms doms' \<and> (\<forall>v \<in> set vs. domain_ok doms' v)"
proof (induction vs arbitrary: doms)
  case Nil
  then show ?case by (simp add: only_removes_refl)
next
  case (Cons var vs)
  from Cons.prems obtain d doms1 where d: "map_of doms var = Some d"
    and w: "enforce_node_consistency_words var d doms = Inr doms1"
    and rest: "enforce_node_consistency_vars vs doms1 = Inr doms'"
    by (auto split: option.splits sum.splits)
  from Cons.IH[OF rest] have ih: "only_removes doms1 doms'" "\<forall>v \<in> set vs. domain_ok doms' v"
    by auto
  have "only_removes doms doms'"
    using enforce_words_only_removes[OF w] ih(1) by (rule only_removes_trans)
  moreover have "domain_ok doms' var"
    using enforce_words_domain_ok[OF d w] ih(1) by (rule domain_ok_only_removes)
  ultimately show ?case using ih(2) by simp
qed

lemma enforce_node_consistency_post:
  "enforce_node_consistency cw doms = Inr doms' \<Longrightarrow>
   only_removes doms doms' \<and> node_consistent cw doms'"
  using enforce_vars_post[of "variables cw" doms doms']
  by (simp add: enforce_node_consistency_def node_consistent_def domain_ok_def)

lemma revise_words_only_removes:
  "revise_words x y i j ws (r, doms) = Inr (r', doms') \<Longrightarrow> only_removes doms doms'"
proof (induction ws arbitrary: r doms)
  case Nil
  then show ?case by (simp add: only_removes_refl)
next
  case (Cons w ws)
  then show ?case
    by (auto split: if_splits option.splits sum.splits
        dest!: domain_remove_only_removes intro: only_removes_trans)
qed

lemma revise_only_removes:
  "revise cw x y doms = Inr (r, doms') \<Longrightarrow> only_removes doms doms'"
  by (auto simp: revise_def only_removes_refl split: option.splits
      dest: revise_words_only_removes)

lemma ac3_loop_only_removes:
  "ac3_loop cw arcs doms = Inr (b, doms') \<Longrightarrow> only_removes doms doms'"
proof (induction cw arcs doms rule: ac3_loop.induct)
  case (1 cw doms)
  then show ?case by (simp add: only_removes_refl)
next
  case (2 cw x y arcs doms)
  from "2.prems" obtain revised doms1 where rv: "revise cw x y doms = Inr (revised, doms1)"
    by (auto split: sum.splits)
  note o1 = revise_only_removes[OF rv]
  show ?case
  proof (cases revised)
    case True
    from "2.prems" rv True obtain dx where dx: "map_of doms1 x = Some dx"
      by (auto split: option.splits)
    show ?thesis
    proof (cases "dx = []")
      case True
      with "2.prems" rv \<open>revised\<close> dx o1 show ?thesis by simp
    next
      case False
      with "2.prems" rv \<open>revised\<close> dx have mem: "y \<in> set (neighbors cw x)"
        and rest: "ac3_loop cw (arcs @ map (\<lambda>z. (z, x)) (removeAll y (neighbors cw x))) doms1
                     = Inr (b, doms')"
        by (auto split: if_splits)
      from "2.IH"(1)[OF rv refl \<open>revised\<close> dx False mem rest] o1
      show ?thesis by (blast intro: only_removes_trans)
    qed
  next
    case False
    with "2.prems" rv have rest: "ac3_loop cw arcs doms1 = Inr (b, doms')" by simp
    from "2.IH"(2)[OF rv refl False rest] o1 show ?thesis by (blast intro: only_removes_trans)
  qed
qed

lemma ac3_only_removes:
  "ac3 cw arcs doms = Inr (b, doms') \<Longrightarrow> only_removes doms doms'"
  by (simp add: ac3_def ac3_loop_only_removes)

section \<open>Value ordering and the assignment\<close>

text \<open>
  C9. \<open>order_domain_values\<close> never reads its assignment argument: with the same
  crossword, domain store and variable, any two assignments give the same result
  (the same list, or the same exception).
\<close>

theorem order_domain_values_ignores_assignment:
  "order_domain_values cw doms var a1 = order_domain_values cw doms var a2"
  by (simp add: order_domain_values_def)

section \<open>Which variables count as assigned\<close>

lemma keyed_snd: "keyed f xs = Inr ks \<Longrightarrow> map snd ks = xs"
  by (induction xs arbitrary: ks) (auto split: sum.splits)

lemma keyed_key: "keyed f xs = Inr ks \<Longrightarrow> (k, x) \<in> set ks \<Longrightarrow> f x = Inr k"
  by (induction xs arbitrary: ks) (auto split: sum.splits)

lemma sorted_by_set: "sorted_by f xs = Inr ys \<Longrightarrow> set ys = set xs"
proof -
  assume a: "sorted_by f xs = Inr ys"
  then obtain ks where ks: "keyed f xs = Inr ks" "ys = map snd (sort_key fst ks)"
    by (auto simp: sorted_by_def split: sum.splits)
  have "set ys = snd ` set ks" using ks(2) by simp
  also have "\<dots> = set (map snd ks)" by simp
  finally show ?thesis using keyed_snd[OF ks(1)] by simp
qed

lemma select_unassigned_variable_Some:
  "select_unassigned_variable cw doms a = Inr (Some v) \<Longrightarrow>
   v \<in> set (variables cw) \<and> \<not> assigned a v"
  by (auto simp: select_unassigned_variable_def find_Some_iff split: sum.splits
      dest!: sorted_by_set)

lemma select_unassigned_variable_None:
  "select_unassigned_variable cw doms a = Inr None \<Longrightarrow> assignment_complete cw a"
  by (auto simp: select_unassigned_variable_def find_None_iff assignment_complete_def
      list_all_iff split: sum.splits dest!: sorted_by_set)

lemma assigned_iff: "assigned a v \<longleftrightarrow> (\<exists>w. map_of a v = Some w \<and> w \<noteq> [])"
  by (auto simp: assigned_def split: option.splits)

text \<open>
  C10. \<open>assignment_complete\<close> holds exactly when every variable of the crossword has an
  entry with a non-empty word: a variable that is missing, or mapped to the empty
  string, makes it false. \<open>select_unassigned_variable\<close> reads the assignment the same
  way: the variable it returns is missing or mapped to the empty string, and it
  returns no variable only when the assignment is complete.
\<close>

theorem empty_string_is_unassigned:
  "(assignment_complete cw a \<longleftrightarrow>
      (\<forall>v \<in> set (variables cw). \<exists>w. map_of a v = Some w \<and> w \<noteq> []))
   \<and> (\<forall>v. select_unassigned_variable cw doms a = Inr (Some v) \<longrightarrow>
          v \<in> set (variables cw) \<and> (map_of a v = None \<or> map_of a v = Some []))
   \<and> (select_unassigned_variable cw doms a = Inr None \<longrightarrow> assignment_complete cw a)"
proof -
  have 1: "assignment_complete cw a \<longleftrightarrow>
      (\<forall>v \<in> set (variables cw). \<exists>w. map_of a v = Some w \<and> w \<noteq> [])"
    by (simp add: assignment_complete_def list_all_iff assigned_iff)
  have 2: "v \<in> set (variables cw) \<and> (map_of a v = None \<or> map_of a v = Some [])"
    if "select_unassigned_variable cw doms a = Inr (Some v)" for v
    using select_unassigned_variable_Some[OF that]
    by (auto simp: assigned_def split: option.splits)
  from 1 2 select_unassigned_variable_None[of cw doms a] show ?thesis by blast
qed

theorem empty_string_is_unassigned_witness:
  "\<not> assignment_complete cw1 [(slot_A, ''AT''), (slot_B, ''''), (slot_C, ''AHA'')]
   \<and> select_unassigned_variable cw1 cw1_doms1 [(slot_A, ''AT''), (slot_B, ''''), (slot_C, ''AHA'')]
       = Inr (Some slot_B)
   \<and> map_of [(slot_A, ''AT''), (slot_B, ''''), (slot_C, ''AHA'')] slot_B = Some []
   \<and> assignment_complete cw1 [(slot_A, ''BE''), (slot_B, ''PI''), (slot_C, ''BOP'')]
   \<and> select_unassigned_variable cw1 cw1_doms1 [(slot_A, ''BE''), (slot_B, ''PI''), (slot_C, ''BOP'')]
       = Inr None"
proof -
  have s: "select_unassigned_variable cw1 cw1_doms1 [(slot_A, ''AT''), (slot_B, ''''), (slot_C, ''AHA'')]
       = Inr (Some slot_B)" by code_simp
  have n: "select_unassigned_variable cw1 cw1_doms1 [(slot_A, ''BE''), (slot_B, ''PI''), (slot_C, ''BOP'')]
       = Inr None" by code_simp
  have m: "map_of [(slot_A, ''AT''), (slot_B, ''''), (slot_C, ''AHA'')] slot_B = Some []"
    by code_simp
  have c: "slot_B \<in> set (variables cw1)" by code_simp
  from empty_string_is_unassigned[of cw1 "[(slot_A, ''AT''), (slot_B, ''''), (slot_C, ''AHA'')]" cw1_doms1]
    empty_string_is_unassigned[of cw1 "[(slot_A, ''BE''), (slot_B, ''PI''), (slot_C, ''BOP'')]" cw1_doms1]
    s n m c
  show ?thesis by force
qed

section \<open>Arc revision\<close>

text \<open>A word \<open>w\<close> of \<open>x\<close> is supported by the domain \<open>dy\<close> of \<open>y\<close> when some word of \<open>dy\<close> has
  at index \<open>j\<close> the character \<open>w\<close> has at index \<open>i\<close>.\<close>

definition supported :: "nat \<Rightarrow> nat \<Rightarrow> string list \<Rightarrow> string \<Rightarrow> bool" where
  "supported i j dy w = (\<exists>u \<in> set dy. i < length w \<and> j < length u \<and> u ! j = w ! i)"

lemma all_differ_iff:
  "all_differ j c dy = Inr b \<Longrightarrow> b \<longleftrightarrow> \<not> (\<exists>u \<in> set dy. j < length u \<and> u ! j = c)"
  by (induction dy) (auto split: if_splits)

lemma domain_remove_other:
  "domain_remove x w doms = Inr doms' \<Longrightarrow> z \<noteq> x \<Longrightarrow> map_of doms' z = map_of doms z"
  by (auto simp: domain_remove_def AList.update_conv' split: option.splits if_splits)

lemma domain_remove_self:
  "domain_remove x w doms = Inr doms' \<Longrightarrow> map_of doms x = Some dx \<Longrightarrow>
   map_of doms' x = Some (removeAll w dx) \<and> w \<in> set dx"
  by (auto simp: domain_remove_def AList.update_conv' split: option.splits if_splits)

lemma revise_words_other:
  "revise_words x y i j ws (r, doms) = Inr (r', doms') \<Longrightarrow> z \<noteq> x \<Longrightarrow>
   map_of doms' z = map_of doms z"
proof (induction ws arbitrary: r doms)
  case Nil
  then show ?case by simp
next
  case (Cons w ws)
  then show ?case
    by (auto split: if_splits option.splits sum.splits dest: domain_remove_other)
qed

lemma revise_other:
  "revise cw x y doms = Inr (r, doms') \<Longrightarrow> z \<noteq> x \<Longrightarrow> map_of doms' z = map_of doms z"
  by (auto simp: revise_def split: option.splits dest: revise_words_other)

lemma revise_words_post:
  "revise_words x y i j ws (r, doms) = Inr (r', doms') \<Longrightarrow> x \<noteq> y \<Longrightarrow>
   map_of doms y = Some dy \<Longrightarrow> map_of doms x = Some dx \<Longrightarrow>
    \<exists>dx'. map_of doms' x = Some dx'
       \<and> set dx' = set dx - {w \<in> set ws. \<not> supported i j dy w}
       \<and> (r' \<longleftrightarrow> r \<or> (\<exists>w \<in> set ws. \<not> supported i j dy w))"
proof (induction ws arbitrary: r doms dx)
  case Nil
  then show ?case by simp
next
  case (Cons w ws)
  note y = \<open>map_of doms y = Some dy\<close> and neq = \<open>x \<noteq> y\<close>
  from Cons.prems(1) have len: "i < length w" by (auto split: if_splits)
  from Cons.prems(1) len y obtain b where b: "all_differ j (w ! i) dy = Inr b"
    by (auto split: sum.splits)
  from all_differ_iff[OF b] len have sup: "b \<longleftrightarrow> \<not> supported i j dy w"
    by (auto simp: supported_def)
  show ?case
  proof (cases b)
    case True
    with Cons.prems(1) len y b obtain doms1 where rm: "domain_remove x w doms = Inr doms1"
      and rest: "revise_words x y i j ws (True, doms1) = Inr (r', doms')"
      by (auto split: sum.splits)
    from domain_remove_self[OF rm Cons.prems(4)]
    have x1: "map_of doms1 x = Some (removeAll w dx)" by simp
    from domain_remove_other[OF rm] neq y have y1: "map_of doms1 y = Some dy" by metis
    from Cons.IH[OF rest neq y1 x1] True sup show ?thesis by auto
  next
    case False
    with Cons.prems(1) len y b have rest: "revise_words x y i j ws (r, doms) = Inr (r', doms')"
      by simp
    from Cons.IH[OF rest neq y Cons.prems(4)] False sup show ?thesis by auto
  qed
qed

lemma revise_post:
  assumes "revise cw x y doms = Inr (r, doms')" and "x \<noteq> y"
    and "overlaps cw (x, y) = Some (Some (i, j))"
    and "map_of doms x = Some dx" and "map_of doms y = Some dy"
  shows "\<exists>dx'. map_of doms' x = Some dx'
       \<and> set dx' = {w \<in> set dx. supported i j dy w}
       \<and> (r \<longleftrightarrow> (\<exists>w \<in> set dx. w \<notin> set dx'))"
proof -
  from assms(1,3,4) have "revise_words x y i j dx (False, doms) = Inr (r, doms')"
    by (simp add: revise_def)
  from revise_words_post[OF this assms(2,5,4)] show ?thesis by auto
qed

text \<open>
  C6. Let \<open>x\<close> and \<open>y\<close> be two different slots with domains \<open>dx\<close> and \<open>dy\<close>. When
  their overlap is \<open>(i, j)\<close> and \<open>revise\<close> returns, a word is in the new domain of \<open>x\<close>
  exactly when it was in \<open>dx\<close> and some word of \<open>dy\<close> has at index \<open>j\<close> the character
  the word has at index \<open>i\<close>; the domain of every other slot is what it was; and the
  returned flag is true exactly when a word of \<open>dx\<close> is gone. When the stored overlap
  is \<^verbatim>\<open>None\<close>, \<open>revise\<close> returns false and leaves the store as it is.
\<close>

theorem revise_semantics:
  assumes "x \<noteq> y" and "map_of doms x = Some dx" and "map_of doms y = Some dy"
  shows "(overlaps cw (x, y) = Some (Some (i, j)) \<and> revise cw x y doms = Inr (revised, doms')
          \<longrightarrow> (\<exists>dx'. map_of doms' x = Some dx'
                 \<and> (\<forall>w. w \<in> set dx' \<longleftrightarrow>
                        w \<in> set dx \<and> (\<exists>u \<in> set dy. i < length w \<and> j < length u \<and> u ! j = w ! i))
                 \<and> (revised \<longleftrightarrow> (\<exists>w \<in> set dx. w \<notin> set dx')))
              \<and> (\<forall>z. z \<noteq> x \<longrightarrow> map_of doms' z = map_of doms z))
       \<and> (overlaps cw (x, y) = Some None \<longrightarrow> revise cw x y doms = Inr (False, doms))"
proof -
  have "(\<exists>dx'. map_of doms' x = Some dx'
                 \<and> (\<forall>w. w \<in> set dx' \<longleftrightarrow>
                        w \<in> set dx \<and> (\<exists>u \<in> set dy. i < length w \<and> j < length u \<and> u ! j = w ! i))
                 \<and> (revised \<longleftrightarrow> (\<exists>w \<in> set dx. w \<notin> set dx')))
              \<and> (\<forall>z. z \<noteq> x \<longrightarrow> map_of doms' z = map_of doms z)"
    if ov: "overlaps cw (x, y) = Some (Some (i, j))"
      and rv: "revise cw x y doms = Inr (revised, doms')"
  proof -
    from revise_post[OF rv assms(1) ov assms(2,3)]
    obtain dx' where dx': "map_of doms' x = Some dx'" "set dx' = {w \<in> set dx. supported i j dy w}"
      "revised \<longleftrightarrow> (\<exists>w \<in> set dx. w \<notin> set dx')" by blast
    from dx'(2) have "\<forall>w. w \<in> set dx' \<longleftrightarrow>
        w \<in> set dx \<and> (\<exists>u \<in> set dy. i < length w \<and> j < length u \<and> u ! j = w ! i)"
      by (auto simp: supported_def)
    with dx'(1,3) revise_other[OF rv] show ?thesis by blast
  qed
  moreover have "revise cw x y doms = Inr (False, doms)" if "overlaps cw (x, y) = Some None"
    using that by (simp add: revise_def)
  ultimately show ?thesis by blast
qed

theorem revise_semantics_witness:
  "slot_A \<noteq> slot_C
   \<and> map_of cw1_doms0 slot_A = Some [''AT'', ''BE'', ''PI'', ''PA'']
   \<and> map_of cw1_doms0 slot_C = Some [''AHA'', ''AVA'', ''BOP'']
   \<and> overlaps cw1 (slot_A, slot_C) = Some (Some (0, 0))
   \<and> revise cw1 slot_A slot_C cw1_doms0 = Inr (True, AList.update slot_A [''AT'', ''BE''] cw1_doms0)
   \<and> map_of (AList.update slot_A [''AT'', ''BE''] cw1_doms0) slot_A = Some [''AT'', ''BE'']
   \<and> map_of (AList.update slot_A [''AT'', ''BE''] cw1_doms0) slot_C = map_of cw1_doms0 slot_C
   \<and> overlaps cw1 (slot_A, slot_B) = Some None
   \<and> slot_A \<noteq> slot_B
   \<and> map_of cw1_doms0 slot_B = Some [''AT'', ''BE'', ''PI'', ''PA'']
   \<and> revise cw1 slot_A slot_B cw1_doms0 = Inr (False, cw1_doms0)"
proof -
  have h: "slot_A \<noteq> slot_C" "map_of cw1_doms0 slot_A = Some [''AT'', ''BE'', ''PI'', ''PA'']"
    "map_of cw1_doms0 slot_C = Some [''AHA'', ''AVA'', ''BOP'']"
    "overlaps cw1 (slot_A, slot_C) = Some (Some (0, 0))"
    "revise cw1 slot_A slot_C cw1_doms0 = Inr (True, AList.update slot_A [''AT'', ''BE''] cw1_doms0)"
    "map_of (AList.update slot_A [''AT'', ''BE''] cw1_doms0) slot_A = Some [''AT'', ''BE'']"
    by code_simp+
  have g: "overlaps cw1 (slot_A, slot_B) = Some None" "slot_A \<noteq> slot_B"
    "map_of cw1_doms0 slot_B = Some [''AT'', ''BE'', ''PI'', ''PA'']"
    by code_simp+
  from revise_semantics[OF h(1,2,3), where cw = cw1 and i = 0 and j = 0 and revised = True
      and doms' = "AList.update slot_A [''AT'', ''BE''] cw1_doms0"] h(4,5)
  have 1: "map_of (AList.update slot_A [''AT'', ''BE''] cw1_doms0) slot_C = map_of cw1_doms0 slot_C"
    using h(1) by metis
  from revise_semantics[OF g(2) h(2) g(3), where cw = cw1] g(1)
  have 2: "revise cw1 slot_A slot_B cw1_doms0 = Inr (False, cw1_doms0)" by blast
  from h g 1 2 show ?thesis by blast
qed

section \<open>Soundness of the search\<close>

lemma consistent_neighbors_True:
  "consistent_neighbors cw a key val ns = Inr True \<Longrightarrow> n \<in> set ns \<Longrightarrow>
   overlaps cw (key, n) = Some (Some (i, j)) \<Longrightarrow> map_of a n = Some nv \<Longrightarrow> nv \<noteq> [] \<Longrightarrow>
   i < length val \<and> j < length nv \<and> val ! i = nv ! j"
  by (induction ns) (auto split: option.splits if_splits)

lemma consistent_items_True:
  "consistent_items cw a items = Inr True \<Longrightarrow> (k, v) \<in> set items \<Longrightarrow>
   length v = var_length k \<and> consistent_neighbors cw a k v (neighbors cw k) = Inr True"
  by (induction items) (auto split: if_splits sum.splits)

lemma length_remdups_distinct:
  "length (remdups (map f xs)) = length xs \<Longrightarrow> distinct (map f xs)"
  by (metis length_map length_remdups_eq remdups_id_iff_distinct)

lemma consistent_True:
  "consistent cw a = Inr True \<Longrightarrow>
   consistent_items cw a a = Inr True \<and> distinct (map snd a)"
  by (auto simp: consistent_def split: sum.splits if_splits dest: length_remdups_distinct)

lemma consistent_Nil: "consistent cw [] = Inr True"
  by (simp add: consistent_def)

text \<open>The keys of the assignment: a dictionary has every key once, and the search only
  adds variables of the crossword.\<close>

definition proper :: "crossword \<Rightarrow> assignment \<Rightarrow> bool" where
  "proper cw a \<longleftrightarrow> distinct (map fst a) \<and> fst ` set a \<subseteq> set (variables cw)"

lemma proper_update:
  "proper cw a \<Longrightarrow> var \<in> set (variables cw) \<Longrightarrow> proper cw (AList.update var val a)"
  by (auto simp: proper_def AList.distinct_update AList.dom_update)

lemma backtrack_values_sound:
  assumes IH: "\<And>a r a'. backtrack cw doms n a = Inr (Some r, a') \<Longrightarrow>
      r = a' \<and> assignment_complete cw r \<and> (r = a \<or> consistent cw r = Inr True \<and> r \<noteq> [])"
  shows "backtrack_values cw doms n var vals a = Inr (Some r, a') \<Longrightarrow>
      r = a' \<and> assignment_complete cw r \<and> consistent cw r = Inr True \<and> r \<noteq> []"
proof (induction vals arbitrary: a)
  case Nil
  then show ?case by simp
next
  case (Cons val rest)
  from Cons.prems obtain ok where ok: "consistent cw (AList.update var val a) = Inr ok"
    by (auto split: sum.splits)
  show ?case
  proof (cases ok)
    case False
    with Cons.prems ok have "backtrack_values cw doms n var rest a = Inr (Some r, a')" by simp
    from Cons.IH[OF this] show ?thesis .
  next
    case True
    with Cons.prems ok obtain result a1
      where bt: "backtrack cw doms n (AList.update var val a) = Inr (result, a1)"
      by (auto split: sum.splits)
    show ?thesis
    proof (cases "result \<noteq> None \<and> result \<noteq> Some []")
      case True
      with Cons.prems ok \<open>ok\<close> bt have eq: "result = Some r" "a1 = a'" by auto
      from IH[OF bt[unfolded eq]] ok \<open>ok\<close> show ?thesis by auto
    next
      case False
      with Cons.prems ok \<open>ok\<close> bt
      have "backtrack_values cw doms n var rest (AList.update var [] a1) = Inr (Some r, a')"
        by auto
      from Cons.IH[OF this] show ?thesis .
    qed
  qed
qed

lemma backtrack_sound:
  "backtrack cw doms n a = Inr (Some r, a') \<Longrightarrow>
   r = a' \<and> assignment_complete cw r \<and> (r = a \<or> consistent cw r = Inr True \<and> r \<noteq> [])"
proof (induction n arbitrary: a r a')
  case 0
  then show ?case by simp
next
  case (Suc n)
  show ?case
  proof (cases "assignment_complete cw a")
    case True
    with Suc.prems show ?thesis by auto
  next
    case False
    with Suc.prems obtain var vals
      where "backtrack_values cw doms n var vals a = Inr (Some r, a')"
      by (auto split: sum.splits option.splits)
    from backtrack_values_sound[OF Suc.IH this] show ?thesis by blast
  qed
qed

lemma backtrack_values_proper:
  assumes IH: "\<And>a res a'. backtrack cw doms n a = Inr (res, a') \<Longrightarrow> proper cw a \<Longrightarrow> proper cw a'"
    and var: "var \<in> set (variables cw)"
  shows "backtrack_values cw doms n var vals a = Inr (res, a') \<Longrightarrow> proper cw a \<Longrightarrow> proper cw a'"
proof (induction vals arbitrary: a)
  case Nil
  then show ?case by simp
next
  case (Cons val rest)
  from Cons.prems(1) obtain ok where ok: "consistent cw (AList.update var val a) = Inr ok"
    by (auto split: sum.splits)
  show ?case
  proof (cases ok)
    case False
    with Cons.prems ok have "backtrack_values cw doms n var rest a = Inr (res, a')" by simp
    from Cons.IH[OF this Cons.prems(2)] show ?thesis .
  next
    case True
    with Cons.prems ok obtain result a1
      where bt: "backtrack cw doms n (AList.update var val a) = Inr (result, a1)"
      by (auto split: sum.splits)
    from IH[OF bt proper_update[OF Cons.prems(2) var]] have p1: "proper cw a1" .
    show ?thesis
    proof (cases "result \<noteq> None \<and> result \<noteq> Some []")
      case True
      with Cons.prems ok \<open>ok\<close> bt have "a1 = a'" by auto
      with p1 show ?thesis by simp
    next
      case False
      with Cons.prems ok \<open>ok\<close> bt
      have "backtrack_values cw doms n var rest (AList.update var [] a1) = Inr (res, a')"
        by auto
      from Cons.IH[OF this proper_update[OF p1 var]] show ?thesis .
    qed
  qed
qed

lemma backtrack_proper:
  "backtrack cw doms n a = Inr (res, a') \<Longrightarrow> proper cw a \<Longrightarrow> proper cw a'"
proof (induction n arbitrary: a res a')
  case 0
  then show ?case by simp
next
  case (Suc n)
  show ?case
  proof (cases "assignment_complete cw a")
    case True
    with Suc.prems show ?thesis by auto
  next
    case False
    with Suc.prems obtain var vals
      where sel: "select_unassigned_variable cw doms a = Inr (Some var)"
        and "backtrack_values cw doms n var vals a = Inr (res, a')"
      by (auto split: sum.splits option.splits)
    from backtrack_values_proper[OF Suc.IH _ this(2) Suc.prems(2)]
      select_unassigned_variable_Some[OF sel]
    show ?thesis by simp
  qed
qed

lemma solve_backtrack:
  "solve cw limit doms = Inr (Some a) \<Longrightarrow>
   \<exists>doms2 a'. backtrack cw doms2 limit [] = Inr (Some a, a')"
  by (auto simp: solve_def split: sum.splits prod.splits)

lemma solve_result:
  assumes "solve cw limit doms = Inr (Some a)"
  shows "assignment_complete cw a \<and> consistent cw a = Inr True \<and> proper cw a"
proof -
  from solve_backtrack[OF assms] obtain doms2 a'
    where bt: "backtrack cw doms2 limit [] = Inr (Some a, a')" by blast
  from backtrack_sound[OF bt] consistent_Nil[of cw]
  have "a = a'" "assignment_complete cw a" "consistent cw a = Inr True" by auto
  moreover from backtrack_proper[OF bt] \<open>a = a'\<close> have "proper cw a" by (simp add: proper_def)
  ultimately show ?thesis by simp
qed


lemma distinct_values_same_key:
  "distinct (map snd a) \<Longrightarrow> (x, w) \<in> set a \<Longrightarrow> (y, w) \<in> set a \<Longrightarrow> x = y"
proof -
  assume d: "distinct (map snd a)" and x: "(x, w) \<in> set a" and y: "(y, w) \<in> set a"
  from d have "inj_on snd (set a)" by (simp add: distinct_map)
  from inj_onD[OF this _ x y] show ?thesis by simp
qed

lemma complete_proper_nonempty:
  assumes "assignment_complete cw a" and "proper cw a" and "map_of a v = Some w"
  shows "w \<noteq> []"
proof -
  from assms(3) have "v \<in> fst ` set a" by (force dest: map_of_SomeD)
  with assms(2) have "v \<in> set (variables cw)" by (auto simp: proper_def)
  with assms(1) have "assigned a v" by (simp add: assignment_complete_def list_all_iff)
  with assms(3) show ?thesis by (simp add: assigned_def)
qed

definition cw2 :: crossword where
  "cw2 = grid [slot_A, slot_B, slot_C] [''BE'', ''PI'', ''AHA'', ''BOP'']"

definition grid_solution :: assignment where
  "grid_solution = [(slot_A, ''BE''), (slot_B, ''PI''), (slot_C, ''BOP'')]"

text \<open>
  C2. Every assignment that \<open>solve\<close> returns gives a non-empty word to every variable
  of the crossword; each of its words has the length of its slot; two assigned slots,
  one a neighbour of the other with an overlap \<open>(i, j)\<close>, carry the same character at
  these indices; no word is the value of two slots; and \<open>consistent\<close>, run on it again,
  returns true.
\<close>

theorem solve_sound:
  assumes "solve cw limit doms = Inr (Some a)"
  shows "(\<forall>v \<in> set (variables cw). \<exists>w. map_of a v = Some w \<and> w \<noteq> [])
     \<and> (\<forall>v w. map_of a v = Some w \<longrightarrow> length w = var_length v)
     \<and> (\<forall>x y i j wx wy. map_of a x = Some wx \<and> map_of a y = Some wy
           \<and> y \<in> set (neighbors cw x) \<and> overlaps cw (x, y) = Some (Some (i, j))
           \<longrightarrow> i < length wx \<and> j < length wy \<and> wx ! i = wy ! j)
     \<and> (\<forall>x y w. map_of a x = Some w \<and> map_of a y = Some w \<longrightarrow> x = y)
     \<and> consistent cw a = Inr True"
proof -
  from solve_result[OF assms]
  have c: "assignment_complete cw a" and k: "consistent cw a = Inr True" and p: "proper cw a"
    by simp_all
  from consistent_True[OF k]
  have items: "consistent_items cw a a = Inr True" and dv: "distinct (map snd a)" by simp_all
  have 1: "\<forall>v \<in> set (variables cw). \<exists>w. map_of a v = Some w \<and> w \<noteq> []"
    using c by (simp add: assignment_complete_def list_all_iff assigned_iff)
  have 2: "length w = var_length v" if "map_of a v = Some w" for v w
    using consistent_items_True[OF items map_of_SomeD[OF that]] by simp
  have 3: "i < length wx \<and> j < length wy \<and> wx ! i = wy ! j"
    if "map_of a x = Some wx" "map_of a y = Some wy" "y \<in> set (neighbors cw x)"
      "overlaps cw (x, y) = Some (Some (i, j))" for x y i j wx wy
  proof -
    from consistent_items_True[OF items map_of_SomeD[OF that(1)]]
    have "consistent_neighbors cw a x wx (neighbors cw x) = Inr True" by simp
    from consistent_neighbors_True[OF this that(3,4,2) complete_proper_nonempty[OF c p that(2)]]
    show ?thesis .
  qed
  have 4: "x = y" if "map_of a x = Some w" "map_of a y = Some w" for x y w
    using distinct_values_same_key[OF dv map_of_SomeD[OF that(1)] map_of_SomeD[OF that(2)]] .
  from 1 2 3 4 k show ?thesis by blast
qed

theorem solve_sound_witness:
  "solve cw2 4 (init_domains cw2) = Inr (Some grid_solution)
   \<and> consistent cw2 grid_solution = Inr True
   \<and> map_of grid_solution slot_A = Some ''BE''
   \<and> map_of grid_solution slot_C = Some ''BOP''
   \<and> length ''BE'' = var_length slot_A
   \<and> ''BE'' ! 0 = ''BOP'' ! 0"
proof -
  have s: "solve cw2 4 (init_domains cw2) = Inr (Some grid_solution)" by code_simp
  have m: "map_of grid_solution slot_A = Some ''BE''" "map_of grid_solution slot_C = Some ''BOP''"
    "slot_C \<in> set (neighbors cw2 slot_A)" "overlaps cw2 (slot_A, slot_C) = Some (Some (0, 0))"
    by code_simp+
  note t = solve_sound[OF s]
  from t have "consistent cw2 grid_solution = Inr True" by blast
  moreover from t m(1) have "length ''BE'' = var_length slot_A" by blast
  moreover from t m have "''BE'' ! 0 = ''BOP'' ! 0" by blast
  ultimately show ?thesis using s m by blast
qed

section \<open>What a failed branch leaves in the assignment\<close>

text \<open>The word a slot holds in the eyes of \<^verbatim>\<open>assignment.get(var, False)\<close>: none when the
  key is missing or the value is the empty string.\<close>

definition assigned_word :: "assignment \<Rightarrow> variable \<Rightarrow> string option" where
  "assigned_word a v =
     (case map_of a v of None \<Rightarrow> None | Some w \<Rightarrow> if w = [] then None else Some w)"

lemma assigned_word_update:
  "assigned_word (AList.update var val a) =
     (assigned_word a)(var := if val = [] then None else Some val)"
  by (rule ext) (simp add: assigned_word_def AList.update_conv')

lemma assigned_word_unassigned: "\<not> assigned a var \<Longrightarrow> assigned_word a var = None"
  by (simp add: assigned_word_def assigned_def split: option.splits)

lemma backtrack_not_Some_Nil:
  "backtrack cw doms n (AList.update var val a) = Inr (result, a') \<Longrightarrow>
   \<not> (result \<noteq> None \<and> result \<noteq> Some []) \<Longrightarrow> result = None"
proof (cases result)
  case None
  then show ?thesis by simp
next
  case (Some r)
  assume bt: "backtrack cw doms n (AList.update var val a) = Inr (result, a')"
    and falsy: "\<not> (result \<noteq> None \<and> result \<noteq> Some [])"
  from falsy Some have "r = []" by simp
  with backtrack_sound[OF bt[unfolded Some]] have "[] = AList.update var val a" by auto
  then show ?thesis using AList.update_nonempty[of var val a] by simp
qed

lemma clear_after_failure:
  assumes "assigned_word a1 = assigned_word (AList.update var val a)" and "\<not> assigned a var"
  shows "assigned_word (AList.update var [] a1) = assigned_word a"
  using assms assigned_word_unassigned[OF assms(2)]
  by (auto simp: assigned_word_update fun_eq_iff)

lemma backtrack_values_restores:
  assumes IH: "\<And>a a'. backtrack cw doms n a = Inr (None, a') \<Longrightarrow>
      assigned_word a' = assigned_word a"
  shows "backtrack_values cw doms n var vals a = Inr (None, a') \<Longrightarrow> \<not> assigned a var \<Longrightarrow>
      assigned_word a' = assigned_word a"
proof (induction vals arbitrary: a)
  case Nil
  then show ?case by simp
next
  case (Cons val rest)
  from Cons.prems(1) obtain ok where ok: "consistent cw (AList.update var val a) = Inr ok"
    by (auto split: sum.splits)
  show ?case
  proof (cases ok)
    case False
    with Cons.prems ok have "backtrack_values cw doms n var rest a = Inr (None, a')" by simp
    from Cons.IH[OF this Cons.prems(2)] show ?thesis .
  next
    case True
    with Cons.prems ok obtain result a1
      where bt: "backtrack cw doms n (AList.update var val a) = Inr (result, a1)"
      by (auto split: sum.splits)
    from Cons.prems(1) ok \<open>ok\<close> bt have falsy: "\<not> (result \<noteq> None \<and> result \<noteq> Some [])"
      by (cases result) (auto split: if_splits)
    from backtrack_not_Some_Nil[OF bt falsy] have none: "result = None" .
    from IH[OF bt[unfolded none]]
    have "assigned_word a1 = assigned_word (AList.update var val a)" .
    from clear_after_failure[OF this Cons.prems(2)]
    have eq: "assigned_word (AList.update var [] a1) = assigned_word a" .
    have un: "\<not> assigned (AList.update var [] a1) var"
      by (simp add: assigned_def AList.update_conv')
    from Cons.prems(1) ok \<open>ok\<close> bt falsy
    have "backtrack_values cw doms n var rest (AList.update var [] a1) = Inr (None, a')"
      by auto
    from Cons.IH[OF this un] eq show ?thesis by simp
  qed
qed

lemma backtrack_restores:
  "backtrack cw doms n a = Inr (None, a') \<Longrightarrow> assigned_word a' = assigned_word a"
proof (induction n arbitrary: a a')
  case 0
  then show ?case by simp
next
  case (Suc n)
  show ?case
  proof (cases "assignment_complete cw a")
    case True
    with Suc.prems show ?thesis by simp
  next
    case False
    with Suc.prems obtain var vals
      where sel: "select_unassigned_variable cw doms a = Inr (Some var)"
        and "backtrack_values cw doms n var vals a = Inr (None, a')"
      by (auto split: sum.splits option.splits)
    from backtrack_values_restores[OF Suc.IH this(2)] select_unassigned_variable_Some[OF sel]
    show ?thesis by simp
  qed
qed

text \<open>
  \<open>commits cw doms depth a u\<close>: during the run of \<^verbatim>\<open>backtrack\<close> on the dictionary \<open>a\<close>,
  line 261 (\<^verbatim>\<open>assignment[var] = value\<close>) is executed with \<open>u\<close> for \<^verbatim>\<open>var\<close>, in this
  activation or in a deeper one. \<open>commits_values\<close> is the same for the loop over the
  values of \<open>var\<close>. The rules follow the loop: a value that passes the check is
  committed (\<open>here\<close>) and the search goes \<open>deeper\<close>; the loop goes on to the rest of
  the values after a value that fails the check (\<open>skipped\<close>) and after a recursive
  call that failed, on the dictionary with \<open>var\<close> cleared (\<open>retried\<close>).
\<close>

inductive commits :: "crossword \<Rightarrow> domains \<Rightarrow> nat \<Rightarrow> assignment \<Rightarrow> variable \<Rightarrow> bool"
  and commits_values ::
    "crossword \<Rightarrow> domains \<Rightarrow> nat \<Rightarrow> variable \<Rightarrow> string list \<Rightarrow> assignment \<Rightarrow> variable \<Rightarrow> bool"
where
  activation:
    "\<not> assignment_complete cw a \<Longrightarrow>
     select_unassigned_variable cw doms a = Inr (Some var) \<Longrightarrow>
     order_domain_values cw doms var a = Inr vals \<Longrightarrow>
     commits_values cw doms depth var vals a u \<Longrightarrow>
     commits cw doms (Suc depth) a u"
| here:
    "consistent cw (AList.update var val a) = Inr True \<Longrightarrow>
     commits_values cw doms depth var (val # rest) a var"
| deeper:
    "consistent cw (AList.update var val a) = Inr True \<Longrightarrow>
     commits cw doms depth (AList.update var val a) u \<Longrightarrow>
     commits_values cw doms depth var (val # rest) a u"
| skipped:
    "consistent cw (AList.update var val a) = Inr False \<Longrightarrow>
     commits_values cw doms depth var rest a u \<Longrightarrow>
     commits_values cw doms depth var (val # rest) a u"
| retried:
    "consistent cw (AList.update var val a) = Inr True \<Longrightarrow>
     backtrack cw doms depth (AList.update var val a) = Inr (result, a') \<Longrightarrow>
     \<not> (result \<noteq> None \<and> result \<noteq> Some []) \<Longrightarrow>
     commits_values cw doms depth var rest (AList.update var [] a') u \<Longrightarrow>
     commits_values cw doms depth var (val # rest) a u"

text \<open>Entries with the empty string, for a list of slots.\<close>

definition cleared :: "variable list \<Rightarrow> assignment" where
  "cleared ks = map (\<lambda>u. (u, [])) ks"

lemma cleared_append: "cleared (ks @ ks') = cleared ks @ cleared ks'"
  by (simp add: cleared_def)

lemma update_append_in:
  "k \<in> fst ` set al \<Longrightarrow> AList.update k v (al @ bl) = AList.update k v al @ bl"
  by (induction al) auto

lemma update_append_notin:
  "k \<notin> fst ` set al \<Longrightarrow> AList.update k v (al @ bl) = al @ AList.update k v bl"
  by (induction al) auto

lemma unassigned_cases:
  "\<not> assigned s var \<Longrightarrow> map_of s var = Some [] \<or> var \<notin> fst ` set s"
  by (auto simp: assigned_def map_of_eq_None_iff split: option.splits)

text \<open>Clearing the slot after a call that only appended cleared entries gives the
  dictionary from before the extension, with cleared entries appended.\<close>

lemma clear_shape:
  assumes "\<not> assigned s var" and "c' = AList.update var val s @ cleared k1"
  shows "\<exists>k2. AList.update var [] c' = s @ cleared k2"
proof -
  from unassigned_cases[OF assms(1)] show ?thesis
  proof
    assume e: "map_of s var = Some []"
    then have "var \<in> fst ` set s" by (force dest: map_of_SomeD)
    then have "var \<in> fst ` set (AList.update var val s)" by (simp add: AList.dom_update)
    from update_append_in[OF this] assms(2)
    have "AList.update var [] c' = AList.update var [] (AList.update var val s) @ cleared k1"
      by simp
    also have "\<dots> = s @ cleared k1" using AList.update_triv[OF e] by simp
    finally show ?thesis by blast
  next
    assume n: "var \<notin> fst ` set s"
    from update_append_notin[OF n, of val "[]"]
    have u: "AList.update var val s = s @ [(var, val)]" by simp
    with assms(2) have "c' = s @ (var, val) # cleared k1" by simp
    with update_append_notin[OF n, of "[]" "(var, val) # cleared k1"]
    have "AList.update var [] c' = s @ cleared (var # k1)" by (simp add: cleared_def)
    then show ?thesis by blast
  qed
qed

text \<open>A failed run leaves its dictionary in place and appends cleared entries.\<close>

lemma backtrack_values_shape:
  assumes IH: "\<And>b b'. backtrack cw doms n b = Inr (None, b') \<Longrightarrow> \<exists>ks. b' = b @ cleared ks"
  shows "backtrack_values cw doms n var vals s = Inr (None, s') \<Longrightarrow> \<not> assigned s var \<Longrightarrow>
      \<exists>ks. s' = s @ cleared ks"
proof (induction vals arbitrary: s)
  case Nil
  then have "s' = s @ cleared []" by (simp add: cleared_def)
  then show ?case by blast
next
  case (Cons val rest)
  from Cons.prems(1) obtain ok where ok: "consistent cw (AList.update var val s) = Inr ok"
    by (auto split: sum.splits)
  show ?case
  proof (cases ok)
    case False
    with Cons.prems ok have "backtrack_values cw doms n var rest s = Inr (None, s')" by simp
    from Cons.IH[OF this Cons.prems(2)] show ?thesis .
  next
    case True
    with Cons.prems ok obtain result c'
      where bt: "backtrack cw doms n (AList.update var val s) = Inr (result, c')"
      by (auto split: sum.splits)
    from Cons.prems(1) ok \<open>ok\<close> bt have falsy: "\<not> (result \<noteq> None \<and> result \<noteq> Some [])"
      by (cases result) (auto split: if_splits)
    from backtrack_not_Some_Nil[OF bt falsy] have none: "result = None" .
    from IH[OF bt[unfolded none]] obtain k1
      where "c' = AList.update var val s @ cleared k1" by blast
    from clear_shape[OF Cons.prems(2) this] obtain k2
      where s2: "AList.update var [] c' = s @ cleared k2" by blast
    have un: "\<not> assigned (AList.update var [] c') var"
      by (simp add: assigned_def AList.update_conv')
    from Cons.prems(1) ok \<open>ok\<close> bt falsy
    have "backtrack_values cw doms n var rest (AList.update var [] c') = Inr (None, s')"
      by auto
    from Cons.IH[OF this un] obtain k3 where "s' = AList.update var [] c' @ cleared k3" by blast
    with s2 have "s' = s @ cleared (k2 @ k3)" by (simp add: cleared_append)
    then show ?thesis by blast
  qed
qed

lemma backtrack_shape:
  "backtrack cw doms n b = Inr (None, b') \<Longrightarrow> \<exists>ks. b' = b @ cleared ks"
proof (induction n arbitrary: b b')
  case 0
  then show ?case by simp
next
  case (Suc n)
  show ?case
  proof (cases "assignment_complete cw b")
    case True
    with Suc.prems show ?thesis by simp
  next
    case False
    with Suc.prems obtain var vals
      where sel: "select_unassigned_variable cw doms b = Inr (Some var)"
        and "backtrack_values cw doms n var vals b = Inr (None, b')"
      by (auto split: sum.splits option.splits)
    from backtrack_values_shape[OF Suc.IH this(2)] select_unassigned_variable_Some[OF sel]
    show ?thesis by simp
  qed
qed

lemma shape_keys: "b' = b @ cleared ks \<Longrightarrow> fst ` set b \<subseteq> fst ` set b'"
  by auto

lemma shape_map_of:
  "b' = b @ cleared ks \<Longrightarrow> map_of b v = Some w \<Longrightarrow> map_of b' v = Some w"
  by (simp add: map_add_Some_iff)

lemma shape_new:
  "b' = b @ cleared ks \<Longrightarrow> map_of b v = None \<Longrightarrow>
   map_of b' v = (if v \<in> fst ` set b' then Some [] else None)"
proof -
  assume s: "b' = b @ cleared ks" and n: "map_of b v = None"
  from n have nb: "v \<notin> fst ` set b" by (simp add: map_of_eq_None_iff)
  have c: "map_of (cleared ks) v = (if v \<in> set ks then Some [] else None)"
    by (induction ks) (auto simp: cleared_def)
  from s nb have "v \<in> fst ` set b' \<longleftrightarrow> v \<in> set ks" by (force simp: cleared_def)
  with s n c show ?thesis by (simp add: map_add_def)
qed

lemma values_fail_step:
  assumes "backtrack_values cw doms n var (val # rest) s = Inr (None, s')"
    and "consistent cw (AList.update var val s) = Inr True"
  obtains c' where "backtrack cw doms n (AList.update var val s) = Inr (None, c')"
    and "backtrack_values cw doms n var rest (AList.update var [] c') = Inr (None, s')"
proof -
  from assms obtain result c'
    where bt: "backtrack cw doms n (AList.update var val s) = Inr (result, c')"
    by (auto split: sum.splits)
  from assms bt have falsy: "\<not> (result \<noteq> None \<and> result \<noteq> Some [])"
    by (cases result) (auto split: if_splits)
  from backtrack_not_Some_Nil[OF bt falsy] have none: "result = None" .
  from assms bt falsy
  have "backtrack_values cw doms n var rest (AList.update var [] c') = Inr (None, s')"
    by auto
  with bt none that show thesis by simp
qed

lemma values_keys_grow:
  assumes "backtrack_values cw doms n var vals s = Inr (None, s')" and "\<not> assigned s var"
  shows "fst ` set s \<subseteq> fst ` set s'"
proof -
  have "\<exists>ks. b' = b @ cleared ks" if "backtrack cw doms n b = Inr (None, b')" for b b'
    using that by (rule backtrack_shape)
  from backtrack_values_shape[OF this assms] obtain ks where "s' = s @ cleared ks"
    by blast
  then show ?thesis by (rule shape_keys)
qed

lemma cleared_unassigned: "\<not> assigned (AList.update var [] c) var"
  by (simp add: assigned_def AList.update_conv')

lemma assigned_iff_word: "assigned a v \<longleftrightarrow> assigned_word a v \<noteq> None"
  by (simp add: assigned_def assigned_word_def split: option.splits)

text \<open>A slot committed in a failed run is unassigned when the run starts and is a key
  of the dictionary when the run ends.\<close>

lemma commits_kept:
  "commits cw doms n b u \<Longrightarrow>
     (\<forall>b'. backtrack cw doms n b = Inr (None, b') \<longrightarrow> u \<in> fst ` set b' \<and> \<not> assigned b u)"
  "commits_values cw doms n var vals s u \<Longrightarrow>
     (\<forall>s'. backtrack_values cw doms n var vals s = Inr (None, s') \<longrightarrow> \<not> assigned s var \<longrightarrow>
        u \<in> fst ` set s' \<and> \<not> assigned s u)"
proof (induction rule: commits_commits_values.inducts)
  case (activation cw a doms var vals depth u)
  show ?case
  proof (intro allI impI)
    fix b'
    assume "backtrack cw doms (Suc depth) a = Inr (None, b')"
    with activation.hyps(1,2,3)
    have "backtrack_values cw doms depth var vals a = Inr (None, b')" by simp
    with activation.IH select_unassigned_variable_Some[OF activation.hyps(2)]
    show "u \<in> fst ` set b' \<and> \<not> assigned a u" by blast
  qed
next
  case (here cw var val a doms depth rest)
  show ?case
  proof (intro allI impI)
    fix s'
    assume run: "backtrack_values cw doms depth var (val # rest) a = Inr (None, s')"
      and un: "\<not> assigned a var"
    from values_fail_step[OF run here.hyps] obtain c'
      where r: "backtrack_values cw doms depth var rest (AList.update var [] c') = Inr (None, s')"
      by blast
    from values_keys_grow[OF r cleared_unassigned]
    have "var \<in> fst ` set s'" by (auto simp: AList.dom_update)
    with un show "var \<in> fst ` set s' \<and> \<not> assigned a var" by simp
  qed
next
  case (deeper cw var val a doms depth u rest)
  show ?case
  proof (intro allI impI)
    fix s'
    assume run: "backtrack_values cw doms depth var (val # rest) a = Inr (None, s')"
      and un: "\<not> assigned a var"
    from values_fail_step[OF run deeper.hyps(1)] obtain c'
      where bt: "backtrack cw doms depth (AList.update var val a) = Inr (None, c')"
        and r: "backtrack_values cw doms depth var rest (AList.update var [] c') = Inr (None, s')"
      by blast
    from deeper.IH bt have u: "u \<in> fst ` set c'" "\<not> assigned (AList.update var val a) u"
      by blast+
    from u(1) values_keys_grow[OF r cleared_unassigned]
    have "u \<in> fst ` set s'" by (auto simp: AList.dom_update)
    moreover have "\<not> assigned a u"
    proof
      assume as: "assigned a u"
      with un have "u \<noteq> var" by auto
      with as have "assigned (AList.update var val a) u"
        by (simp add: assigned_def AList.update_conv')
      with u(2) show False by simp
    qed
    ultimately show "u \<in> fst ` set s' \<and> \<not> assigned a u" by simp
  qed
next
  case (skipped cw var val a doms depth rest u)
  show ?case
  proof (intro allI impI)
    fix s'
    assume run: "backtrack_values cw doms depth var (val # rest) a = Inr (None, s')"
      and un: "\<not> assigned a var"
    from run skipped.hyps(1) have "backtrack_values cw doms depth var rest a = Inr (None, s')"
      by simp
    with skipped.IH un show "u \<in> fst ` set s' \<and> \<not> assigned a u" by blast
  qed
next
  case (retried cw var val a doms depth result a' rest u)
  show ?case
  proof (intro allI impI)
    fix s'
    assume run: "backtrack_values cw doms depth var (val # rest) a = Inr (None, s')"
      and un: "\<not> assigned a var"
    from values_fail_step[OF run retried.hyps(1)] obtain c'
      where bt: "backtrack cw doms depth (AList.update var val a) = Inr (None, c')"
        and r: "backtrack_values cw doms depth var rest (AList.update var [] c') = Inr (None, s')"
      by blast
    from bt retried.hyps(2) have "c' = a'" by simp
    with retried.IH r cleared_unassigned
    have u: "u \<in> fst ` set s'" "\<not> assigned (AList.update var [] c') u" by blast+
    from clear_after_failure[OF backtrack_restores[OF bt] un]
    have "assigned_word (AList.update var [] c') = assigned_word a" .
    with u(2) have "\<not> assigned a u" by (simp add: assigned_iff_word)
    with u(1) show "u \<in> fst ` set s' \<and> \<not> assigned a u" by simp
  qed
qed

text \<open>A key that a failed run added belongs to a slot committed in the run.\<close>

lemma backtrack_values_added:
  assumes IH: "\<And>b b' u. backtrack cw doms n b = Inr (None, b') \<Longrightarrow> u \<in> fst ` set b' \<Longrightarrow>
      u \<notin> fst ` set b \<Longrightarrow> commits cw doms n b u"
  shows "backtrack_values cw doms n var vals s = Inr (None, s') \<Longrightarrow> \<not> assigned s var \<Longrightarrow>
      u \<in> fst ` set s' \<Longrightarrow> u \<notin> fst ` set s \<Longrightarrow> commits_values cw doms n var vals s u"
proof (induction vals arbitrary: s)
  case Nil
  then show ?case by simp
next
  case (Cons val rest)
  from Cons.prems(1) obtain ok where ok: "consistent cw (AList.update var val s) = Inr ok"
    by (auto split: sum.splits)
  show ?case
  proof (cases ok)
    case False
    with Cons.prems(1) ok have "backtrack_values cw doms n var rest s = Inr (None, s')" by simp
    from Cons.IH[OF this Cons.prems(2,3,4)] ok False show ?thesis
      by (simp add: commits_commits_values.skipped)
  next
    case True
    with ok have okT: "consistent cw (AList.update var val s) = Inr True" by simp
    from values_fail_step[OF Cons.prems(1) okT] obtain c'
      where bt: "backtrack cw doms n (AList.update var val s) = Inr (None, c')"
        and r: "backtrack_values cw doms n var rest (AList.update var [] c') = Inr (None, s')"
      by blast
    show ?thesis
    proof (cases "u \<in> fst ` set (AList.update var [] c')")
      case False
      from Cons.IH[OF r cleared_unassigned Cons.prems(3) False]
      have "commits_values cw doms n var rest (AList.update var [] c') u" .
      from commits_commits_values.retried[OF okT bt _ this] show ?thesis by simp
    next
      case True
      show ?thesis
      proof (cases "u = var")
        case True
        with commits_commits_values.here[OF okT] show ?thesis by simp
      next
        case False
        with True have "u \<in> fst ` set c'" by (simp add: AList.dom_update)
        moreover from False Cons.prems(4) have "u \<notin> fst ` set (AList.update var val s)"
          by (simp add: AList.dom_update)
        ultimately have "commits cw doms n (AList.update var val s) u" using IH[OF bt] by blast
        from commits_commits_values.deeper[OF okT this] show ?thesis .
      qed
    qed
  qed
qed

lemma backtrack_added:
  "backtrack cw doms n b = Inr (None, b') \<Longrightarrow> u \<in> fst ` set b' \<Longrightarrow> u \<notin> fst ` set b \<Longrightarrow>
   commits cw doms n b u"
proof (induction n arbitrary: b b' u)
  case 0
  then show ?case by simp
next
  case (Suc n)
  show ?case
  proof (cases "assignment_complete cw b")
    case True
    with Suc.prems show ?thesis by simp
  next
    case False
    with Suc.prems(1) obtain var vals
      where sel: "select_unassigned_variable cw doms b = Inr (Some var)"
        and ord: "order_domain_values cw doms var b = Inr vals"
        and run: "backtrack_values cw doms n var vals b = Inr (None, b')"
      by (auto split: sum.splits option.splits)
    from select_unassigned_variable_Some[OF sel] have un: "\<not> assigned b var" by simp
    from backtrack_values_added[OF Suc.IH run un Suc.prems(2,3)]
    have "commits_values cw doms n var vals b u" .
    from commits_commits_values.activation[OF False sel ord this] show ?thesis .
  qed
qed

text \<open>
  C3, as the code has it. Let \<open>var\<close> be unassigned in \<open>a\<close>, and let the recursive call
  on \<open>a\<close> extended with \<open>var \<mapsto> val\<close> fail, leaving the dictionary \<open>a'\<close>. The failed
  call has left its dictionary in place and appended entries with the empty string.
  The next candidate is tried on \<open>a'\<close> with \<open>var\<close> set to the empty string, and that
  dictionary is \<open>a\<close> followed by entries with the empty string: every entry of \<open>a\<close> is
  as it was, \<open>var\<close> and every slot committed deeper in the failed branch are keys
  mapped to the empty string, and no other key is added. So neither the tried value
  nor a word committed deeper is left, and a slot holds a non-empty word exactly when
  it did in \<open>a\<close>, and then the same word.
\<close>

theorem backtrack_undo:
  assumes "\<not> assigned a var"
    and "backtrack cw doms depth (AList.update var val a) = Inr (result, a')"
    and "\<not> (result \<noteq> None \<and> result \<noteq> Some [])"
  shows "(\<exists>ks. a' = AList.update var val a @ cleared ks)
       \<and> (\<exists>ks. AList.update var [] a' = a @ cleared ks)
       \<and> (\<forall>v w. map_of a v = Some w \<longrightarrow> map_of (AList.update var [] a') v = Some w)
       \<and> map_of (AList.update var [] a') var = Some []
       \<and> (\<forall>u. commits cw doms depth (AList.update var val a) u
              \<longrightarrow> map_of (AList.update var [] a') u = Some [])
       \<and> (\<forall>u. map_of a u = None \<and> u \<noteq> var \<and> \<not> commits cw doms depth (AList.update var val a) u
              \<longrightarrow> map_of (AList.update var [] a') u = None)
       \<and> (\<forall>v. assigned_word (AList.update var [] a') v = assigned_word a v)"
proof -
  from backtrack_not_Some_Nil[OF assms(2,3)] have "result = None" .
  with assms(2) have bt: "backtrack cw doms depth (AList.update var val a) = Inr (None, a')"
    by simp
  from backtrack_shape[OF bt] obtain k1 where s1: "a' = AList.update var val a @ cleared k1"
    by blast
  from clear_shape[OF assms(1) s1] obtain k2 where s2: "AList.update var [] a' = a @ cleared k2"
    by blast
  have 3: "map_of (AList.update var [] a') v = Some w" if "map_of a v = Some w" for v w
    using shape_map_of[OF s2 that] .
  have 4: "map_of (AList.update var [] a') var = Some []" by (simp add: AList.update_conv')
  have 5: "map_of (AList.update var [] a') u = Some []"
    if c: "commits cw doms depth (AList.update var val a) u" for u
  proof (cases "u = var")
    case True
    with 4 show ?thesis by simp
  next
    case False
    from commits_kept(1)[OF c] bt
    have k: "u \<in> fst ` set a'" and un: "\<not> assigned (AList.update var val a) u" by blast+
    from un False have ua: "\<not> assigned a u" by (simp add: assigned_def AList.update_conv')
    from k have k2: "u \<in> fst ` set (AList.update var [] a')" by (simp add: AList.dom_update)
    show ?thesis
    proof (cases "map_of a u")
      case None
      from shape_new[OF s2 None] k2 show ?thesis by simp
    next
      case (Some w)
      with ua have "w = []" by (simp add: assigned_def)
      with 3[OF Some] show ?thesis by simp
    qed
  qed
  have 6: "map_of (AList.update var [] a') u = None"
    if "map_of a u = None" "u \<noteq> var" "\<not> commits cw doms depth (AList.update var val a) u" for u
  proof -
    from that(1,2) have "u \<notin> fst ` set (AList.update var val a)"
      by (simp add: AList.dom_update map_of_eq_None_iff)
    with backtrack_added[OF bt] that(3) have "u \<notin> fst ` set a'" by blast
    with that(2) have "u \<notin> fst ` set (AList.update var [] a')" by (simp add: AList.dom_update)
    then show ?thesis by (simp add: map_of_eq_None_iff)
  qed
  from clear_after_failure[OF backtrack_restores[OF bt] assms(1)]
  have 7: "\<forall>v. assigned_word (AList.update var [] a') v = assigned_word a v" by simp
  from s1 have 1: "\<exists>ks. a' = AList.update var val a @ cleared ks" by (rule exI)
  from s2 have 2: "\<exists>ks. AList.update var [] a' = a @ cleared ks" by (rule exI)
  show ?thesis
  proof (intro conjI allI impI)
    show "\<exists>ks. a' = AList.update var val a @ cleared ks" by (rule 1)
    show "\<exists>ks. AList.update var [] a' = a @ cleared ks" by (rule 2)
    show "map_of (AList.update var [] a') v = Some w" if "map_of a v = Some w" for v w
      using that by (rule 3)
    show "map_of (AList.update var [] a') var = Some []" by (rule 4)
    show "map_of (AList.update var [] a') u = Some []"
      if "commits cw doms depth (AList.update var val a) u" for u
      using that by (rule 5)
    show "map_of (AList.update var [] a') u = None"
      if "map_of a u = None \<and> u \<noteq> var \<and> \<not> commits cw doms depth (AList.update var val a) u"
      for u
      using that 6[of u] by blast
    show "assigned_word (AList.update var [] a') v = assigned_word a v" for v
      using 7 by simp
  qed
qed

theorem backtrack_undo_witness:
  "\<not> assigned [] slot_A
   \<and> backtrack cw1 cw1_doms1 2 (AList.update slot_A ''AT'' [])
       = Inr (None, [(slot_A, ''AT''), (slot_B, '''')])
   \<and> commits cw1 cw1_doms1 2 (AList.update slot_A ''AT'' []) slot_B
   \<and> \<not> commits cw1 cw1_doms1 2 (AList.update slot_A ''AT'' []) slot_C
   \<and> AList.update slot_A [] [(slot_A, ''AT''), (slot_B, '''')] = cleared [slot_A, slot_B]
   \<and> map_of (AList.update slot_A [] [(slot_A, ''AT''), (slot_B, '''')]) slot_A = Some []
   \<and> map_of (AList.update slot_A [] [(slot_A, ''AT''), (slot_B, '''')]) slot_B = Some []
   \<and> map_of (AList.update slot_A [] [(slot_A, ''AT''), (slot_B, '''')]) slot_C = None
   \<and> assigned_word (AList.update slot_A [] [(slot_A, ''AT''), (slot_B, '''')]) slot_B
       = assigned_word [] slot_B"
proof -
  have u: "\<not> assigned [] slot_A" by code_simp
  have b: "backtrack cw1 cw1_doms1 2 (AList.update slot_A ''AT'' [])
       = Inr (None, [(slot_A, ''AT''), (slot_B, '''')])" by code_simp
  have f: "\<not> (None \<noteq> None \<and> (None :: assignment option) \<noteq> Some [])" by simp
  have nc: "\<not> assignment_complete cw1 (AList.update slot_A ''AT'' [])" by code_simp
  have sel: "select_unassigned_variable cw1 cw1_doms1 (AList.update slot_A ''AT'' [])
       = Inr (Some slot_B)" by code_simp
  have ord: "order_domain_values cw1 cw1_doms1 slot_B (AList.update slot_A ''AT'' [])
       = Inr [''AT'', ''PI'', ''PA'']" by code_simp
  have c1: "consistent cw1 (AList.update slot_B ''AT'' (AList.update slot_A ''AT'' []))
       = Inr False" by code_simp
  have c2: "consistent cw1 (AList.update slot_B ''PI'' (AList.update slot_A ''AT'' []))
       = Inr True" by code_simp
  from commits_commits_values.skipped[OF c1 commits_commits_values.here[OF c2]]
  have "commits_values cw1 cw1_doms1 (Suc 0) slot_B [''AT'', ''PI'', ''PA'']
          (AList.update slot_A ''AT'' []) slot_B" .
  from commits_commits_values.activation[OF nc sel ord this]
  have c: "commits cw1 cw1_doms1 2 (AList.update slot_A ''AT'' []) slot_B"
    by (simp add: numeral_2_eq_2)
  have e: "AList.update slot_A [] [(slot_A, ''AT''), (slot_B, '''')] = cleared [slot_A, slot_B]"
    by code_simp
  have m: "map_of (AList.update slot_A [] [(slot_A, ''AT''), (slot_B, '''')]) slot_C = None"
    by code_simp
  note t = backtrack_undo[OF u b f]
  from t c have mb: "map_of (AList.update slot_A [] [(slot_A, ''AT''), (slot_B, '''')]) slot_B
      = Some []" by blast
  from t have ma: "map_of (AList.update slot_A [] [(slot_A, ''AT''), (slot_B, '''')]) slot_A
      = Some []" by blast
  from t m have nc3: "\<not> commits cw1 cw1_doms1 2 (AList.update slot_A ''AT'' []) slot_C"
    by (metis option.distinct(1))
  from t have w: "assigned_word (AList.update slot_A [] [(slot_A, ''AT''), (slot_B, '''')]) slot_B
       = assigned_word [] slot_B" by blast
  from u b c nc3 e ma mb m w show ?thesis by blast
qed

text \<open>C3 as it was stated fails on \<open>cw1\<close>: the search starts from the empty
  dictionary, the branch \<open>slot_A \<mapsto> AT\<close> fails, and the next candidate \<open>BE\<close> is tried on
  a dictionary with two entries, where it is refused although it is consistent with
  the empty dictionary.\<close>

theorem backtrack_undo_counterexample:
  "backtrack cw1 cw1_doms1 2 (AList.update slot_A ''AT'' [])
       = Inr (None, [(slot_A, ''AT''), (slot_B, '''')])
   \<and> AList.update slot_A [] [(slot_A, ''AT''), (slot_B, '''')]
       = [(slot_A, ''''), (slot_B, '''')]
   \<and> [(slot_A, ''''), (slot_B, '''')] \<noteq> ([] :: assignment)
   \<and> consistent cw1 (AList.update slot_A ''BE'' []) = Inr True
   \<and> consistent cw1 (AList.update slot_A ''BE'' [(slot_A, ''''), (slot_B, '''')]) = Inr False"
  by code_simp

section \<open>The search on the worked grid\<close>

text \<open>A result of \<open>backtrack\<close> does not change when more nested activations are
  allowed.\<close>

lemma backtrack_values_more_depth:
  assumes IH: "\<And>a r. backtrack cw doms n a = Inr r \<Longrightarrow> backtrack cw doms (n + k) a = Inr r"
  shows "backtrack_values cw doms n var vals a = Inr r \<Longrightarrow>
         backtrack_values cw doms (n + k) var vals a = Inr r"
proof (induction vals arbitrary: a)
  case Nil
  then show ?case by simp
next
  case (Cons val rest)
  from Cons.prems obtain ok where ok: "consistent cw (AList.update var val a) = Inr ok"
    by (auto split: sum.splits)
  show ?case
  proof (cases ok)
    case False
    with Cons.prems ok have "backtrack_values cw doms n var rest a = Inr r" by simp
    from Cons.IH[OF this] ok False show ?thesis by simp
  next
    case True
    with Cons.prems ok obtain result a1
      where bt: "backtrack cw doms n (AList.update var val a) = Inr (result, a1)"
      by (auto split: sum.splits)
    note bt' = IH[OF bt]
    show ?thesis
    proof (cases "result \<noteq> None \<and> result \<noteq> Some []")
      case True
      with Cons.prems ok \<open>ok\<close> bt have "r = (result, a1)" by simp
      with ok \<open>ok\<close> bt' True show ?thesis by simp
    next
      case False
      with Cons.prems ok \<open>ok\<close> bt
      have "backtrack_values cw doms n var rest (AList.update var [] a1) = Inr r"
        by (cases result) (auto split: if_splits)
      from Cons.IH[OF this] ok \<open>ok\<close> bt' False show ?thesis
        by (cases result) (auto split: if_splits)
    qed
  qed
qed

lemma backtrack_more_depth:
  "backtrack cw doms n a = Inr r \<Longrightarrow> backtrack cw doms (n + k) a = Inr r"
proof (induction n arbitrary: a r)
  case 0
  then show ?case by simp
next
  case (Suc n)
  show ?case
  proof (cases "assignment_complete cw a")
    case True
    with Suc.prems show ?thesis by simp
  next
    case False
    with Suc.prems obtain var vals
      where sel: "select_unassigned_variable cw doms a = Inr (Some var)"
        and ord: "order_domain_values cw doms var a = Inr vals"
        and "backtrack_values cw doms n var vals a = Inr r"
      by (auto split: sum.splits option.splits)
    from backtrack_values_more_depth[OF Suc.IH this(3)] False sel ord
    show ?thesis by simp
  qed
qed

lemma cw1_backtrack: "backtrack cw1 cw1_doms1 3 [] = Inr (None, [(slot_A, ''''), (slot_B, '''')])"
  by code_simp

text \<open>
  C1 fails on \<open>cw1\<close>. After propagation \<open>slot_A\<close> has the smallest domain and \<open>AT\<close> is
  its first value. Under \<open>slot_A \<mapsto> AT\<close> the values \<open>PI\<close> and \<open>PA\<close> of \<open>slot_B\<close> pass the
  check and fail one level deeper, which leaves \<open>slot_B\<close> mapped to the empty string.
  Back at the top \<open>BE\<close> is tried with that entry still in the dictionary, and
  \<open>consistent\<close> refuses every dictionary with an empty string for a slot of length two.
  So \<open>solve\<close> returns \<^verbatim>\<open>None\<close>, with any recursion limit of three or more, although
  \<open>grid_solution\<close> is complete and consistent.
\<close>

theorem solve_misses_solution:
  "solve cw1 (3 + k) (init_domains cw1) = Inr None
   \<and> solve_crossword cw1 (3 + k) = Inr None
   \<and> assignment_complete cw1 grid_solution
   \<and> consistent cw1 grid_solution = Inr True"
proof -
  from backtrack_more_depth[OF cw1_backtrack, of k]
  have "backtrack cw1 cw1_doms1 (3 + k) [] = Inr (None, [(slot_A, ''''), (slot_B, '''')])" .
  then have "solve cw1 (3 + k) (init_domains cw1) = Inr None"
    by (simp add: solve_def cw1_node_consistency cw1_ac3)
  moreover have "assignment_complete cw1 grid_solution" by code_simp
  moreover have "consistent cw1 grid_solution = Inr True" by code_simp
  ultimately show ?thesis by (simp add: solve_crossword_def)
qed

definition cw5 :: crossword where
  "cw5 = grid [slot_C, slot_A, slot_B] [''AT'', ''BE'', ''PI'', ''AHA'', ''BOP'']"

definition cw5_doms1 :: domains where
  "cw5_doms1 = [(slot_C, [''AHA'', ''BOP'']), (slot_A, [''AT'', ''BE'']), (slot_B, [''AT'', ''PI''])]"

text \<open>
  C5 fails on the same grid with the vocabulary AT, BE, PI, AHA, BOP. After
  propagation the three domains have two words each, \<open>slot_C\<close> has two neighbours and
  \<open>slot_A\<close> and \<open>slot_B\<close> one each. The sort is ascending in both components of the key,
  so the variable chosen has the lowest degree among those tied on the domain size,
  here \<open>slot_A\<close>, although \<open>slot_C\<close> comes first in the list of variables.
\<close>

theorem select_prefers_low_degree:
  "(case enforce_node_consistency cw5 (init_domains cw5) of
         Inl e \<Rightarrow> Inl e | Inr d \<Rightarrow> ac3 cw5 None d) = Inr (True, cw5_doms1)
   \<and> select_key cw5 cw5_doms1 slot_A = Inr (2, 1)
   \<and> select_key cw5 cw5_doms1 slot_B = Inr (2, 1)
   \<and> select_key cw5 cw5_doms1 slot_C = Inr (2, 2)
   \<and> select_unassigned_variable cw5 cw5_doms1 [] = Inr (Some slot_A)"
  by code_simp

section \<open>Failure of the propagation\<close>

lemma ac3_loop_True_nonempty:
  "ac3_loop cw arcs doms = Inr (True, doms') \<Longrightarrow> map_of doms v = Some d \<Longrightarrow> d \<noteq> [] \<Longrightarrow>
   map_of doms' v \<noteq> Some []"
proof (induction cw arcs doms arbitrary: d rule: ac3_loop.induct)
  case (1 cw doms)
  then show ?case by auto
next
  case (2 cw x y arcs doms)
  from "2.prems"(1) obtain revised doms1 where rv: "revise cw x y doms = Inr (revised, doms1)"
    by (auto split: sum.splits)
  show ?case
  proof (cases revised)
    case True
    from "2.prems"(1) rv True obtain dx where dx: "map_of doms1 x = Some dx"
      by (auto split: option.splits)
    from "2.prems"(1) rv True dx have ne: "dx \<noteq> []" by (auto split: if_splits)
    with "2.prems"(1) rv True dx have mem: "y \<in> set (neighbors cw x)"
      and rest: "ac3_loop cw (arcs @ map (\<lambda>z. (z, x)) (removeAll y (neighbors cw x))) doms1
                   = Inr (True, doms')"
      by (auto split: if_splits)
    have "\<exists>d1. map_of doms1 v = Some d1 \<and> d1 \<noteq> []"
    proof (cases "v = x")
      case True
      with dx ne show ?thesis by simp
    next
      case False
      from revise_other[OF rv this] "2.prems"(2,3) show ?thesis by simp
    qed
    then obtain d1 where "map_of doms1 v = Some d1" "d1 \<noteq> []" by blast
    from "2.IH"(1)[OF rv refl True dx ne mem rest this] show ?thesis .
  next
    case False
    with "2.prems"(1) rv have rest: "ac3_loop cw arcs doms1 = Inr (True, doms')" by simp
    from revise_size[OF rv] False have "doms1 = doms" by simp
    with "2.IH"(2)[OF rv refl False rest] "2.prems"(2,3) show ?thesis by simp
  qed
qed

lemma ac3_loop_False_empty:
  "ac3_loop cw arcs doms = Inr (False, doms') \<Longrightarrow> \<exists>x. map_of doms' x = Some []"
proof (induction cw arcs doms rule: ac3_loop.induct)
  case (1 cw doms)
  then show ?case by simp
next
  case (2 cw x y arcs doms)
  from "2.prems"(1) obtain revised doms1 where rv: "revise cw x y doms = Inr (revised, doms1)"
    by (auto split: sum.splits)
  show ?case
  proof (cases revised)
    case True
    from "2.prems"(1) rv True obtain dx where dx: "map_of doms1 x = Some dx"
      by (auto split: option.splits)
    show ?thesis
    proof (cases "dx = []")
      case True
      with "2.prems" rv \<open>revised\<close> dx show ?thesis by auto
    next
      case False
      with "2.prems"(1) rv True dx have mem: "y \<in> set (neighbors cw x)"
        and rest: "ac3_loop cw (arcs @ map (\<lambda>z. (z, x)) (removeAll y (neighbors cw x))) doms1
                     = Inr (False, doms')"
        by (auto split: if_splits)
      from "2.IH"(1)[OF rv refl True dx False mem rest] show ?thesis .
    qed
  next
    case False
    with "2.prems"(1) rv have rest: "ac3_loop cw arcs doms1 = Inr (False, doms')" by simp
    from "2.IH"(2)[OF rv refl False rest] show ?thesis .
  qed
qed

text \<open>The variable selected has the least key among the unassigned variables.\<close>

lemma keyed_total:
  "(\<And>x. x \<in> set xs \<Longrightarrow> \<exists>k. f x = Inr k) \<Longrightarrow> \<exists>ks. keyed f xs = Inr ks"
proof (induction xs)
  case Nil
  then show ?case by simp
next
  case (Cons x xs)
  from Cons.prems[of x] obtain k where "f x = Inr k" by auto
  moreover from Cons.IH Cons.prems obtain ks where "keyed f xs = Inr ks" by auto
  ultimately show ?case by simp
qed

lemma find_sorted_least:
  assumes "sorted (map fst l)" and "find (\<lambda>p. P (snd p)) l = Some (k, v)"
    and "(k', u) \<in> set l" and "P u"
  shows "k \<le> k'"
proof -
  from assms(2) obtain i where i: "i < length l" "l ! i = (k, v)"
    "\<forall>j<i. \<not> P (snd (l ! j))" by (auto simp: find_Some_iff)
  from assms(3) obtain m where m: "m < length l" "l ! m = (k', u)"
    by (auto simp: in_set_conv_nth)
  from i(3) m(2) assms(4) have "i \<le> m" by (metis not_le_imp_less snd_conv)
  from sorted_nth_mono[OF assms(1), of i m] this m(1) i(1,2) m(2) show ?thesis by simp
qed

lemma find_mem: "find P xs = Some x \<Longrightarrow> x \<in> set xs"
  by (induction xs) (auto split: if_splits)

lemma find_map_snd:
  "find P (map snd l) = Some v \<Longrightarrow> \<exists>k. find (\<lambda>p. P (snd p)) l = Some (k, v)"
  by (induction l) (auto split: if_splits)

lemma select_least_key:
  assumes "select_unassigned_variable cw doms a = Inr (Some v)"
    and "u \<in> set (variables cw)" and "\<not> assigned a u"
  shows "\<exists>kv ku. select_key cw doms v = Inr kv \<and> select_key cw doms u = Inr ku \<and> kv \<le> ku"
proof -
  from assms(1) obtain ks where ks: "keyed (select_key cw doms) (variables cw) = Inr ks"
    and f: "find (\<lambda>var. \<not> assigned a var) (map snd (sort_key fst ks)) = Some v"
    by (auto simp: select_unassigned_variable_def sorted_by_def split: sum.splits)
  from find_map_snd[OF f] obtain kv
    where fk: "find (\<lambda>p. \<not> assigned a (snd p)) (sort_key fst ks) = Some (kv, v)" by blast
  from assms(2) keyed_snd[OF ks] have "u \<in> snd ` set ks" by (metis list.set_map)
  then obtain ku where ku: "(ku, u) \<in> set ks" by auto
  have "sorted (map fst (sort_key fst ks))" by (rule sorted_sort_key)
  from find_sorted_least[OF this fk _ assms(3), of ku] ku have le: "kv \<le> ku" by simp
  from find_mem[OF fk] have "(kv, v) \<in> set ks" by simp
  from keyed_key[OF ks this] keyed_key[OF ks ku] le show ?thesis by blast
qed

lemma init_domains_keys: "map fst (init_domains cw) = variables cw"
  by (simp add: init_domains_def comp_def)

lemma map_of_keys: "map fst doms = vs \<Longrightarrow> v \<in> set vs \<Longrightarrow> \<exists>d. map_of doms v = Some d"
  by (metis list.set_map map_of_eq_None_iff not_Some_eq)

lemma backtrack_empty_domain:
  assumes keys: "map fst doms = variables cw" and empty: "map_of doms x = Some []"
  shows "\<exists>var. select_unassigned_variable cw doms [] = Inr (Some var)
            \<and> order_domain_values cw doms var [] = Inr []
            \<and> backtrack cw doms (Suc n) [] = Inr (None, [])"
proof -
  from empty have "x \<in> fst ` set doms" by (force dest: map_of_SomeD)
  with keys have x: "x \<in> set (variables cw)" by (metis list.set_map)
  have un: "\<not> assigned [] x" by (simp add: assigned_def)
  with x have nc: "\<not> assignment_complete cw []"
    by (auto simp: assignment_complete_def list_all_iff)
  have "\<exists>k. select_key cw doms v = Inr k" if "v \<in> set (variables cw)" for v
    using map_of_keys[OF keys that] by (auto simp: select_key_def)
  from keyed_total[of "variables cw" "select_key cw doms", OF this]
  obtain ks where "keyed (select_key cw doms) (variables cw) = Inr ks" by blast
  then obtain r where r: "select_unassigned_variable cw doms [] = Inr r"
    by (simp add: select_unassigned_variable_def sorted_by_def)
  with nc select_unassigned_variable_None[of cw doms "[]"] obtain var where var: "r = Some var"
    by (cases r) auto
  from select_least_key[OF r[unfolded var] x un] empty
  obtain kv where k: "select_key cw doms var = Inr kv" "kv \<le> (0, length (neighbors cw x))"
    by (auto simp: select_key_def)
  from k(2) have "fst kv = 0" by (cases kv) (simp add: less_eq_prod_def)
  with k(1) have "map_of doms var = Some []"
    by (auto simp: select_key_def split: option.splits)
  then have o: "order_domain_values cw doms var [] = Inr []"
    by (simp add: order_domain_values_def sorted_by_def)
  with r var nc show ?thesis by simp
qed

lemma solve_after_failed_ac3:
  assumes e: "enforce_node_consistency cw (init_domains cw) = Inr doms_n"
    and a: "ac3 cw None doms_n = Inr (False, doms_a)"
  shows "\<exists>var. select_unassigned_variable cw doms_a [] = Inr (Some var)
            \<and> order_domain_values cw doms_a var [] = Inr []
            \<and> backtrack cw doms_a (Suc n) [] = Inr (None, [])
            \<and> solve cw (Suc n) (init_domains cw) = Inr None"
proof -
  from enforce_node_consistency_post[OF e] have "only_removes (init_domains cw) doms_n" by simp
  with ac3_only_removes[OF a] have "only_removes (init_domains cw) doms_a"
    by (rule only_removes_trans[rotated])
  from only_removes_keys[OF this] have keys: "map fst doms_a = variables cw"
    by (simp add: init_domains_keys)
  from a obtain x where "map_of doms_a x = Some []"
    by (auto simp: ac3_def dest: ac3_loop_False_empty)
  from backtrack_empty_domain[OF keys this, of n] e a show ?thesis
    by (auto simp: solve_def)
qed

definition cw4 :: crossword where
  "cw4 = grid [slot_A, slot_B, slot_C] [''AT'', ''PI'', ''BOP'']"

definition cw4_doms0 :: domains where
  "cw4_doms0 = [(slot_A, [''AT'', ''PI'']), (slot_B, [''AT'', ''PI'']), (slot_C, [''BOP''])]"

lemma cw4_node_consistency: "enforce_node_consistency cw4 (init_domains cw4) = Inr cw4_doms0"
  by code_simp

lemma cw4_ac3: "ac3 cw4 None cw4_doms0 = Inr (False, AList.update slot_A [] cw4_doms0)"
  by code_simp

text \<open>
  C4, as the code has it. A domain that was not empty before \<open>ac3\<close> is not empty after
  a successful \<open>ac3\<close>, and a failed \<open>ac3\<close> leaves an empty domain: a domain emptied
  during propagation makes \<open>ac3\<close> return false. \<open>solve\<close> does not read that value. It
  calls \<open>backtrack\<close>, whose first activation selects a variable with an empty domain,
  has no value to try and returns \<^verbatim>\<open>None\<close>; so \<open>solve\<close> returns \<^verbatim>\<open>None\<close> as soon as one
  activation of \<open>backtrack\<close> is allowed.
\<close>

theorem propagation_failure:
  "(ac3 cw arcs doms = Inr (True, doms') \<and> map_of doms v = Some d \<and> d \<noteq> []
      \<longrightarrow> map_of doms' v \<noteq> Some [])
   \<and> (ac3 cw arcs doms = Inr (False, doms') \<longrightarrow> (\<exists>x. map_of doms' x = Some []))
   \<and> (enforce_node_consistency cw (init_domains cw) = Inr doms_n
        \<and> ac3 cw None doms_n = Inr (False, doms_a)
      \<longrightarrow> solve cw (Suc n) (init_domains cw) = Inr None
          \<and> backtrack cw doms_a (Suc n) [] = Inr (None, [])
          \<and> (\<exists>var. select_unassigned_variable cw doms_a [] = Inr (Some var)
                 \<and> order_domain_values cw doms_a var [] = Inr []))"
proof -
  have 1: "map_of doms' v \<noteq> Some []"
    if "ac3 cw arcs doms = Inr (True, doms')" "map_of doms v = Some d" "d \<noteq> []"
    using that by (auto simp: ac3_def dest: ac3_loop_True_nonempty)
  have 2: "\<exists>x. map_of doms' x = Some []" if "ac3 cw arcs doms = Inr (False, doms')"
    using that by (auto simp: ac3_def dest: ac3_loop_False_empty)
  have 3: "solve cw (Suc n) (init_domains cw) = Inr None
          \<and> backtrack cw doms_a (Suc n) [] = Inr (None, [])
          \<and> (\<exists>var. select_unassigned_variable cw doms_a [] = Inr (Some var)
                 \<and> order_domain_values cw doms_a var [] = Inr [])"
    if "enforce_node_consistency cw (init_domains cw) = Inr doms_n"
      "ac3 cw None doms_n = Inr (False, doms_a)"
    using solve_after_failed_ac3[OF that, of n] by blast
  from 1 2 3 show ?thesis by blast
qed

theorem propagation_failure_witness:
  "enforce_node_consistency cw4 (init_domains cw4) = Inr cw4_doms0
   \<and> ac3 cw4 None cw4_doms0 = Inr (False, AList.update slot_A [] cw4_doms0)
   \<and> map_of (AList.update slot_A [] cw4_doms0) slot_A = Some []
   \<and> solve cw4 (Suc 0) (init_domains cw4) = Inr None
   \<and> backtrack cw4 (AList.update slot_A [] cw4_doms0) (Suc 0) [] = Inr (None, [])
   \<and> ac3 cw1 None cw1_doms0 = Inr (True, cw1_doms1)
   \<and> map_of cw1_doms0 slot_A = Some [''AT'', ''BE'', ''PI'', ''PA'']
   \<and> map_of cw1_doms1 slot_A \<noteq> Some []"
proof -
  have m: "map_of (AList.update slot_A [] cw4_doms0) slot_A = Some []" by code_simp
  have d: "map_of cw1_doms0 slot_A = Some [''AT'', ''BE'', ''PI'', ''PA'']" by code_simp
  from propagation_failure[where cw = cw4 and doms_n = cw4_doms0
      and doms_a = "AList.update slot_A [] cw4_doms0" and n = 0] cw4_node_consistency cw4_ac3
  have 1: "solve cw4 (Suc 0) (init_domains cw4) = Inr None"
    "backtrack cw4 (AList.update slot_A [] cw4_doms0) (Suc 0) [] = Inr (None, [])" by blast+
  from propagation_failure[where cw = cw1 and arcs = None and doms = cw1_doms0 and doms' = cw1_doms1
      and v = slot_A and d = "[''AT'', ''BE'', ''PI'', ''PA'']"] cw1_ac3 d
  have 2: "map_of cw1_doms1 slot_A \<noteq> Some []" by blast
  from 1 2 m d cw4_node_consistency cw4_ac3 cw1_ac3 show ?thesis by blast
qed

text \<open>C4 as it was stated fails on \<open>cw4\<close>: \<open>ac3\<close> returns false, and \<open>solve\<close> still
  enters \<open>backtrack\<close>. When no activation of \<open>backtrack\<close> is allowed \<open>solve\<close> raises
  instead of returning \<^verbatim>\<open>None\<close>, so the value \<^verbatim>\<open>None\<close> of \<open>solve\<close> is the value of the
  search and not a shortcut past it.\<close>

theorem propagation_failure_counterexample:
  "enforce_node_consistency cw4 (init_domains cw4) = Inr cw4_doms0
   \<and> ac3 cw4 None cw4_doms0 = Inr (False, AList.update slot_A [] cw4_doms0)
   \<and> solve cw4 0 (init_domains cw4) = Inl RecursionError
   \<and> solve cw4 0 (init_domains cw4) \<noteq> Inr None
   \<and> solve cw4 1 (init_domains cw4) = Inr None
   \<and> backtrack cw4 (AList.update slot_A [] cw4_doms0) 1 [] = Inr (None, [])"
  by code_simp

section \<open>Arc consistency after AC-3\<close>

text \<open>Modelled from the spec: the constraint graph built upstream, as far as the
  propagation relies on it. The neighbours of a variable are variables other than
  itself, the relation is symmetric (an overlap belongs to an unordered pair), and a
  pair of neighbours has an overlap whose indices are swapped for the swapped pair.\<close>

definition well_formed_graph :: "crossword \<Rightarrow> bool" where
  "well_formed_graph cw =
     (\<forall>x \<in> set (variables cw). \<forall>y \<in> set (neighbors cw x).
        y \<in> set (variables cw) \<and> y \<noteq> x \<and> x \<in> set (neighbors cw y)
        \<and> (case overlaps cw (x, y) of
              Some (Some (i, j)) \<Rightarrow> overlaps cw (y, x) = Some (Some (j, i))
            | _ \<Rightarrow> False))"

definition is_arc :: "crossword \<Rightarrow> variable \<Rightarrow> variable \<Rightarrow> bool" where
  "is_arc cw x y \<longleftrightarrow> x \<in> set (variables cw) \<and> y \<in> set (neighbors cw x)"

definition arc_consistent :: "crossword \<Rightarrow> domains \<Rightarrow> variable \<Rightarrow> variable \<Rightarrow> bool" where
  "arc_consistent cw doms x y =
     (case overlaps cw (x, y) of
        Some (Some (i, j)) \<Rightarrow>
          (case map_of doms x of
             None \<Rightarrow> False
           | Some dx \<Rightarrow>
               (\<forall>w \<in> set dx. case map_of doms y of
                                 None \<Rightarrow> False
                               | Some dy \<Rightarrow> supported i j dy w))
      | _ \<Rightarrow> False)"

lemma all_arcs_iff: "(x, y) \<in> set (all_arcs cw) \<longleftrightarrow> is_arc cw x y"
  by (auto simp: all_arcs_def is_arc_def)

lemma well_formed_arc:
  assumes "well_formed_graph cw" and "is_arc cw x y"
  obtains i j where "x \<noteq> y" "is_arc cw y x"
    "overlaps cw (x, y) = Some (Some (i, j))" "overlaps cw (y, x) = Some (Some (j, i))"
proof -
  from assms have 1: "y \<in> set (variables cw)" "y \<noteq> x" "x \<in> set (neighbors cw y)"
    and 2: "(case overlaps cw (x, y) of
              Some (Some (i, j)) \<Rightarrow> overlaps cw (y, x) = Some (Some (j, i))
            | _ \<Rightarrow> False)"
    unfolding well_formed_graph_def is_arc_def by blast+
  from 2 obtain i j where "overlaps cw (x, y) = Some (Some (i, j))"
    "overlaps cw (y, x) = Some (Some (j, i))"
    by (auto split: option.splits)
  with 1 that show thesis by (auto simp: is_arc_def)
qed

lemma revise_words_lookup:
  "revise_words x y i j ws (r, doms) = Inr p \<Longrightarrow> ws \<noteq> [] \<Longrightarrow> \<exists>dy. map_of doms y = Some dy"
  by (cases ws) (auto split: if_splits option.splits)

text \<open>The two ways \<open>revise\<close> returns on a pair with an overlap.\<close>

lemma revise_cases:
  assumes rv: "revise cw x y doms = Inr (revised, ds1)" and neq: "x \<noteq> y"
    and ov: "overlaps cw (x, y) = Some (Some (i, j))"
  shows "(map_of doms x = Some [] \<and> \<not> revised \<and> ds1 = doms)
    \<or> (\<exists>dx dy dx'. map_of doms x = Some dx \<and> map_of doms y = Some dy
          \<and> map_of ds1 x = Some dx' \<and> set dx' = {w \<in> set dx. supported i j dy w}
          \<and> (revised \<longleftrightarrow> (\<exists>w \<in> set dx. w \<notin> set dx')))"
proof -
  from rv ov obtain dx where dx: "map_of doms x = Some dx"
    and rw: "revise_words x y i j dx (False, doms) = Inr (revised, ds1)"
    by (auto simp: revise_def split: option.splits)
  show ?thesis
  proof (cases "dx = []")
    case True
    with dx rw show ?thesis by simp
  next
    case False
    from revise_words_lookup[OF rw False] obtain dy where dy: "map_of doms y = Some dy" by blast
    from revise_post[OF rv neq ov dx dy] obtain dx' where "map_of ds1 x = Some dx'"
      "set dx' = {w \<in> set dx. supported i j dy w}" "revised \<longleftrightarrow> (\<exists>w \<in> set dx. w \<notin> set dx')"
      by blast
    with dx dy show ?thesis by blast
  qed
qed

lemma arc_consistent_shrink:
  assumes "arc_consistent cw doms a b" and "map_of ds1 b = map_of doms b"
    and "map_of doms a = Some da" and "map_of ds1 a = Some da'" and "set da' \<subseteq> set da"
  shows "arc_consistent cw ds1 a b"
  using assms unfolding arc_consistent_def
  by (auto split: option.splits)

lemma supported_swap:
  assumes "supported j i dx v" and "v \<in> set dy"
  shows "\<exists>u \<in> set dx. supported i j dy u \<and> i < length u \<and> j < length v \<and> u ! i = v ! j"
proof -
  from assms(1) obtain u where u: "u \<in> set dx" "j < length v" "i < length u" "u ! i = v ! j"
    unfolding supported_def by auto
  from u(2,3,4) assms(2) have "supported i j dy u" unfolding supported_def by force
  with u show ?thesis by blast
qed


text \<open>One pass of the loop keeps the invariant: every arc of the graph is in the queue
  or consistent.\<close>

lemma ac3_step_unrevised:
  assumes wf: "well_formed_graph cw" and arc: "is_arc cw x y"
    and rv: "revise cw x y doms = Inr (False, ds1)"
    and inv: "\<And>a b. is_arc cw a b \<Longrightarrow> (a, b) \<in> set ((x, y) # arcs) \<or> arc_consistent cw doms a b"
    and ab: "is_arc cw a b"
  shows "(a, b) \<in> set arcs \<or> arc_consistent cw ds1 a b"
proof -
  from well_formed_arc[OF wf arc] obtain i j where neq: "x \<noteq> y"
    and ov: "overlaps cw (x, y) = Some (Some (i, j))" by blast
  from revise_size[OF rv] have same: "ds1 = doms" by simp
  from revise_cases[OF rv neq ov]
  consider (empty) "map_of doms x = Some []"
    | (words) dx dy dx' where "map_of doms x = Some dx" "map_of doms y = Some dy"
        "set dx' = {w \<in> set dx. supported i j dy w}" "\<not> (\<exists>w \<in> set dx. w \<notin> set dx')"
    by blast
  then have "arc_consistent cw doms x y"
  proof cases
    case empty
    with ov show ?thesis by (simp add: arc_consistent_def)
  next
    case (words dx dy dx')
    from words(3,4) have "\<forall>w \<in> set dx. supported i j dy w" by auto
    with ov words(1,2) show ?thesis by (simp add: arc_consistent_def)
  qed
  with inv[OF ab] same show ?thesis by auto
qed

lemma ac3_step_revised:
  assumes wf: "well_formed_graph cw" and arc: "is_arc cw x y"
    and rv: "revise cw x y doms = Inr (True, ds1)"
    and inv: "\<And>a b. is_arc cw a b \<Longrightarrow> (a, b) \<in> set ((x, y) # arcs) \<or> arc_consistent cw doms a b"
    and ab: "is_arc cw a b"
  shows "(a, b) \<in> set (arcs @ map (\<lambda>z. (z, x)) (removeAll y (neighbors cw x)))
         \<or> arc_consistent cw ds1 a b"
proof -
  from well_formed_arc[OF wf arc] obtain i j where neq: "x \<noteq> y"
    and ov: "overlaps cw (x, y) = Some (Some (i, j))"
    and vo: "overlaps cw (y, x) = Some (Some (j, i))" by blast
  from revise_cases[OF rv neq ov] obtain dx dy dx'
    where dx: "map_of doms x = Some dx" and dy: "map_of doms y = Some dy"
      and dx': "map_of ds1 x = Some dx'" and keep: "set dx' = {w \<in> set dx. supported i j dy w}"
    by blast
  note other = revise_other[OF rv]
  from other[of y] neq dy have dy1: "map_of ds1 y = Some dy" by simp
  from well_formed_arc[OF wf ab] have ba: "is_arc cw b a" and anb: "a \<noteq> b" by blast+
  consider (xy) "a = x" "b = y" | (zx) "b = x" "a \<noteq> y" | (yx) "a = y" "b = x"
    | (xz) "a = x" "b \<noteq> y" | (rest) "a \<noteq> x" "b \<noteq> x" by blast
  then show ?thesis
  proof cases
    case xy
    from keep have "\<forall>w \<in> set dx'. supported i j dy w" by simp
    with ov dx' dy1 xy show ?thesis by (simp add: arc_consistent_def)
  next
    case zx
    from ba zx(1) have "a \<in> set (neighbors cw x)" by (simp add: is_arc_def)
    with zx show ?thesis by auto
  next
    case yx
    from inv[OF ab] yx neq
    consider "(a, b) \<in> set arcs" | "arc_consistent cw doms y x" by auto
    then show ?thesis
    proof cases
      case 1
      then show ?thesis by simp
    next
      case 2
      with vo dx dy have sup: "\<forall>v \<in> set dy. supported j i dx v"
        by (simp add: arc_consistent_def)
      have "supported j i dx' v" if v: "v \<in> set dy" for v
      proof -
        from supported_swap[OF sup[rule_format, OF v] v] obtain u
          where u: "u \<in> set dx" "supported i j dy u" "i < length u" "j < length v"
            "u ! i = v ! j" by blast
        from u(1,2) keep have "u \<in> set dx'" by simp
        with u(3,4,5) show ?thesis unfolding supported_def by auto
      qed
      with vo dy1 dx' yx show ?thesis by (simp add: arc_consistent_def)
    qed
  next
    case xz
    from anb xz(1) have bx: "b \<noteq> x" by simp
    from inv[OF ab] xz
    consider "(a, b) \<in> set arcs" | "arc_consistent cw doms a b" by auto
    then show ?thesis
    proof cases
      case 1
      then show ?thesis by simp
    next
      case 2
      from keep have "set dx' \<subseteq> set dx" by auto
      from arc_consistent_shrink[OF 2 other[OF bx] dx[folded xz(1)] dx'[folded xz(1)] this]
      show ?thesis by simp
    qed
  next
    case rest
    from inv[OF ab] rest
    consider "(a, b) \<in> set arcs" | "arc_consistent cw doms a b" by auto
    then show ?thesis
    proof cases
      case 1
      then show ?thesis by simp
    next
      case 2
      then obtain da where da: "map_of doms a = Some da"
        by (auto simp: arc_consistent_def split: option.splits)
      from arc_consistent_shrink[OF 2 other[OF rest(2)] da _ subset_refl] other[OF rest(1)] da
      show ?thesis by simp
    qed
  qed
qed

lemma ac3_loop_closure:
  assumes wf: "well_formed_graph cw"
  shows "ac3_loop cw arcs doms = Inr (True, doms') \<Longrightarrow>
    (\<And>x y. (x, y) \<in> set arcs \<Longrightarrow> is_arc cw x y) \<Longrightarrow>
    (\<And>a b. is_arc cw a b \<Longrightarrow> (a, b) \<in> set arcs \<or> arc_consistent cw doms a b) \<Longrightarrow>
    is_arc cw a b \<Longrightarrow> arc_consistent cw doms' a b"
  using wf
proof (induction cw arcs doms rule: ac3_loop.induct)
  case (1 cw doms)
  from "1.prems"(1) have "doms' = doms" by simp
  with "1.prems"(3)[OF "1.prems"(4)] show ?case by simp
next
  case (2 cw x y arcs doms)
  note wf = \<open>well_formed_graph cw\<close>
  from "2.prems"(2) have arc: "is_arc cw x y" by simp
  from "2.prems"(1) obtain revised ds1 where rv: "revise cw x y doms = Inr (revised, ds1)"
    by (auto split: sum.splits)
  show ?case
  proof (cases revised)
    case True
    from "2.prems"(1) rv True obtain dx where dx: "map_of ds1 x = Some dx"
      by (auto split: option.splits)
    from "2.prems"(1) rv True dx have ne: "dx \<noteq> []" by (auto split: if_splits)
    with "2.prems"(1) rv True dx have mem: "y \<in> set (neighbors cw x)"
      and rest: "ac3_loop cw (arcs @ map (\<lambda>z. (z, x)) (removeAll y (neighbors cw x))) ds1
                   = Inr (True, doms')"
      by (auto split: if_splits)
    have arcs': "is_arc cw p q"
      if "(p, q) \<in> set (arcs @ map (\<lambda>z. (z, x)) (removeAll y (neighbors cw x)))" for p q
    proof (cases "(p, q) \<in> set arcs")
      case True
      with "2.prems"(2) show ?thesis by simp
    next
      case False
      with that have "q = x" "p \<in> set (neighbors cw x)" by auto
      with arc have "is_arc cw x p" by (simp add: is_arc_def)
      from well_formed_arc[OF wf this] \<open>q = x\<close> show ?thesis by blast
    qed
    have inv': "(p, q) \<in> set (arcs @ map (\<lambda>z. (z, x)) (removeAll y (neighbors cw x)))
                 \<or> arc_consistent cw ds1 p q" if "is_arc cw p q" for p q
    proof -
      from rv True have "revise cw x y doms = Inr (True, ds1)" by simp
      from ac3_step_revised[OF wf arc this "2.prems"(3) that] show ?thesis .
    qed
    from "2.IH"(1)[OF rv refl True dx ne mem rest arcs' inv' "2.prems"(4) wf]
    show ?thesis .
  next
    case False
    with "2.prems"(1) rv have rest: "ac3_loop cw arcs ds1 = Inr (True, doms')" by simp
    have arcs': "is_arc cw p q" if "(p, q) \<in> set arcs" for p q
      using "2.prems"(2) that by simp
    have inv': "(p, q) \<in> set arcs \<or> arc_consistent cw ds1 p q" if "is_arc cw p q" for p q
    proof -
      from rv False have "revise cw x y doms = Inr (False, ds1)" by simp
      from ac3_step_unrevised[OF wf arc this "2.prems"(3) that] show ?thesis .
    qed
    from "2.IH"(2)[OF rv refl False rest arcs' inv' "2.prems"(4) wf] show ?thesis .
  qed
qed

lemma ac3_closure:
  assumes "well_formed_graph cw" and "ac3 cw None doms = Inr (True, doms')"
    and "is_arc cw a b"
  shows "arc_consistent cw doms' a b"
proof -
  from assms(2) have "ac3_loop cw (all_arcs cw) doms = Inr (True, doms')" by (simp add: ac3_def)
  from ac3_loop_closure[OF assms(1) this _ _ assms(3)] show ?thesis
    by (simp add: all_arcs_iff)
qed

text \<open>
  C7. On a well-formed graph, when \<open>ac3\<close> run on all arcs returns true, every variable
  \<open>x\<close> and every neighbour \<open>y\<close> of \<open>x\<close> have an overlap \<open>(i, j)\<close> and domains, and every
  word left in the domain of \<open>x\<close> has in the domain of \<open>y\<close> a word whose character at
  index \<open>j\<close> is the character of the word at index \<open>i\<close>.
\<close>

theorem ac3_arc_consistency:
  assumes "well_formed_graph cw" and "ac3 cw None doms = Inr (True, doms')"
  shows "\<forall>x \<in> set (variables cw). \<forall>y \<in> set (neighbors cw x).
           \<exists>i j dx dy. overlaps cw (x, y) = Some (Some (i, j))
             \<and> map_of doms' x = Some dx \<and> map_of doms' y = Some dy
             \<and> (\<forall>w \<in> set dx. \<exists>u \<in> set dy. i < length w \<and> j < length u \<and> u ! j = w ! i)"
proof (intro ballI)
  fix x y
  assume "x \<in> set (variables cw)" "y \<in> set (neighbors cw x)"
  then have xy: "is_arc cw x y" by (simp add: is_arc_def)
  from well_formed_arc[OF assms(1) xy] obtain i j where yx: "is_arc cw y x"
    and ov: "overlaps cw (x, y) = Some (Some (i, j))" by blast
  from ac3_closure[OF assms xy] ov obtain dx where dx: "map_of doms' x = Some dx"
    and sup: "\<forall>w \<in> set dx. case map_of doms' y of None \<Rightarrow> False | Some dy \<Rightarrow> supported i j dy w"
    by (auto simp: arc_consistent_def split: option.splits)
  from ac3_closure[OF assms yx] obtain dy where dy: "map_of doms' y = Some dy"
    by (auto simp: arc_consistent_def split: option.splits)
  from sup dy have "\<forall>w \<in> set dx. \<exists>u \<in> set dy. i < length w \<and> j < length u \<and> u ! j = w ! i"
    by (simp add: supported_def)
  with ov dx dy
  show "\<exists>i j dx dy. overlaps cw (x, y) = Some (Some (i, j))
             \<and> map_of doms' x = Some dx \<and> map_of doms' y = Some dy
             \<and> (\<forall>w \<in> set dx. \<exists>u \<in> set dy. i < length w \<and> j < length u \<and> u ! j = w ! i)"
    by blast
qed

lemma cw1_well_formed: "well_formed_graph cw1"
  by code_simp

theorem ac3_arc_consistency_witness:
  "well_formed_graph cw1
   \<and> ac3 cw1 None cw1_doms0 = Inr (True, cw1_doms1)
   \<and> slot_A \<in> set (variables cw1)
   \<and> slot_C \<in> set (neighbors cw1 slot_A)
   \<and> overlaps cw1 (slot_A, slot_C) = Some (Some (0, 0))
   \<and> map_of cw1_doms1 slot_A = Some [''AT'', ''BE'']
   \<and> map_of cw1_doms1 slot_C = Some [''AHA'', ''AVA'', ''BOP'']
   \<and> (\<exists>u \<in> set [''AHA'', ''AVA'', ''BOP'']. u ! 0 = ''BE'' ! 0)"
proof -
  have m: "slot_A \<in> set (variables cw1)" "slot_C \<in> set (neighbors cw1 slot_A)"
    "overlaps cw1 (slot_A, slot_C) = Some (Some (0, 0))"
    "map_of cw1_doms1 slot_A = Some [''AT'', ''BE'']"
    "map_of cw1_doms1 slot_C = Some [''AHA'', ''AVA'', ''BOP'']"
    by code_simp+
  from ac3_arc_consistency[OF cw1_well_formed cw1_ac3] m(1,2)
  obtain i j dx dy where "overlaps cw1 (slot_A, slot_C) = Some (Some (i, j))"
    "map_of cw1_doms1 slot_A = Some dx" "map_of cw1_doms1 slot_C = Some dy"
    "\<forall>w \<in> set dx. \<exists>u \<in> set dy. i < length w \<and> j < length u \<and> u ! j = w ! i"
    by blast
  with m(3,4,5) have "\<forall>w \<in> set [''AT'', ''BE'']. \<exists>u \<in> set [''AHA'', ''AVA'', ''BOP''].
      0 < length w \<and> 0 < length u \<and> u ! 0 = w ! 0" by simp
  then have "\<exists>u \<in> set [''AHA'', ''AVA'', ''BOP'']. u ! 0 = ''BE'' ! 0" by simp
  with cw1_well_formed cw1_ac3 m show ?thesis by blast
qed

section \<open>Node consistency and the length invariant\<close>

text \<open>Node consistency never raises on the store built by \<^verbatim>\<open>__init__\<close>: every variable has
  a domain, and a word taken from the copy of a domain is still in the domain when it
  is removed, since a set holds each word once.\<close>

definition duplicate_free :: "domains \<Rightarrow> bool" where
  "duplicate_free doms = (\<forall>p \<in> set doms. distinct (snd p))"

lemma set_update_subset: "set (AList.update k v al) \<subseteq> insert (k, v) (set al)"
  by (induction al) auto

lemma domain_remove_duplicate_free:
  "domain_remove var w doms = Inr doms' \<Longrightarrow> duplicate_free doms \<Longrightarrow> duplicate_free doms'"
proof -
  assume r: "domain_remove var w doms = Inr doms'" and d: "duplicate_free doms"
  from r obtain dv where dv: "map_of doms var = Some dv"
    and eq: "doms' = AList.update var (removeAll w dv) doms"
    by (auto simp: domain_remove_def split: option.splits if_splits)
  from dv d have "distinct dv" by (auto simp: duplicate_free_def dest!: map_of_SomeD)
  then have "distinct (removeAll w dv)" by (simp add: distinct_removeAll)
  with d set_update_subset[of var "removeAll w dv" doms] show ?thesis
    unfolding eq duplicate_free_def by auto
qed

lemma enforce_words_returns:
  "map_of doms var = Some dc \<Longrightarrow> set ws \<subseteq> set dc \<Longrightarrow> distinct ws \<Longrightarrow>
   duplicate_free doms \<Longrightarrow>
   \<exists>doms'. enforce_node_consistency_words var ws doms = Inr doms' \<and> duplicate_free doms'"
proof (induction ws arbitrary: doms dc)
  case Nil
  then show ?case by simp
next
  case (Cons w ws)
  show ?case
  proof (cases "length w \<noteq> var_length var")
    case True
    from Cons.prems(1,2)
    have r: "domain_remove var w doms = Inr (AList.update var (removeAll w dc) doms)"
      by (simp add: domain_remove_def)
    have 1: "map_of (AList.update var (removeAll w dc) doms) var = Some (removeAll w dc)"
      by (simp add: AList.update_conv')
    from Cons.prems(2,3) have 2: "set ws \<subseteq> set (removeAll w dc)" by auto
    from Cons.prems(3) have 3: "distinct ws" by simp
    from Cons.IH[OF 1 2 3 domain_remove_duplicate_free[OF r Cons.prems(4)]] r True
    show ?thesis by simp
  next
    case False
    from Cons.prems(2,3) have "set ws \<subseteq> set dc" "distinct ws" by auto
    from Cons.IH[OF Cons.prems(1) this Cons.prems(4)] False show ?thesis by simp
  qed
qed

lemma enforce_vars_returns:
  "set vs \<subseteq> fst ` set doms \<Longrightarrow> duplicate_free doms \<Longrightarrow>
   \<exists>doms'. enforce_node_consistency_vars vs doms = Inr doms'"
proof (induction vs arbitrary: doms)
  case Nil
  then show ?case by simp
next
  case (Cons var vs)
  from Cons.prems(1) obtain d where d: "map_of doms var = Some d"
    by (cases "map_of doms var") (auto simp: map_of_eq_None_iff)
  with Cons.prems(2) have "distinct d" by (auto simp: duplicate_free_def dest!: map_of_SomeD)
  from enforce_words_returns[OF d subset_refl this Cons.prems(2)] obtain doms1
    where w: "enforce_node_consistency_words var d doms = Inr doms1" and df: "duplicate_free doms1"
    by blast
  from only_removes_keys[OF enforce_words_only_removes[OF w]] Cons.prems(1)
  have "set vs \<subseteq> fst ` set doms1" by (metis list.set_map set_subset_Cons subset_trans)
  from Cons.IH[OF this df] d w show ?case by simp
qed

lemma enforce_node_consistency_returns:
  assumes "distinct (words cw)"
  shows "\<exists>doms'. enforce_node_consistency cw (init_domains cw) = Inr doms'"
proof -
  have "set (variables cw) \<subseteq> fst ` set (init_domains cw)"
    by (metis init_domains_keys list.set_map subset_refl)
  moreover from assms have "duplicate_free (init_domains cw)"
    by (auto simp: duplicate_free_def init_domains_def)
  ultimately show ?thesis
    unfolding enforce_node_consistency_def by (rule enforce_vars_returns)
qed

text \<open>
  C8. On the store built by \<^verbatim>\<open>__init__\<close> from a vocabulary without repeated words
  \<open>enforce_node_consistency\<close> returns. After \<open>enforce_node_consistency\<close> every word left in the domain of every variable
  has the length of the variable. \<open>revise\<close> and \<open>ac3\<close> keep the keys of the store and
  replace each domain by a subset of it, so a node-consistent store stays node
  consistent through propagation. The search reads the store and never writes it:
  \<open>backtrack\<close> takes the store and returns only its result and the assignment.
\<close>

theorem domain_length_invariant:
  "(distinct (words cw) \<longrightarrow> (\<exists>doms_i. enforce_node_consistency cw (init_domains cw) = Inr doms_i))
   \<and> (enforce_node_consistency cw doms = Inr doms_n \<longrightarrow> node_consistent cw doms_n)
   \<and> (node_consistent cw ds \<and> revise cw x y ds = Inr (r, ds_r)
        \<longrightarrow> only_removes ds ds_r \<and> node_consistent cw ds_r)
   \<and> (node_consistent cw ds \<and> ac3 cw arcs ds = Inr (b, ds_a)
        \<longrightarrow> only_removes ds ds_a \<and> node_consistent cw ds_a)"
  using enforce_node_consistency_returns[of cw] enforce_node_consistency_post[of cw doms doms_n]
    revise_only_removes[of cw x y ds r ds_r] ac3_only_removes[of cw arcs ds b ds_a]
    node_consistent_only_removes[of cw ds ds_r] node_consistent_only_removes[of cw ds ds_a]
  by blast

theorem domain_length_invariant_witness:
  "distinct (words cw1)
   \<and> enforce_node_consistency cw1 (init_domains cw1) = Inr cw1_doms0
   \<and> node_consistent cw1 cw1_doms0
   \<and> revise cw1 slot_A slot_C cw1_doms0 = Inr (True, AList.update slot_A [''AT'', ''BE''] cw1_doms0)
   \<and> only_removes cw1_doms0 (AList.update slot_A [''AT'', ''BE''] cw1_doms0)
   \<and> node_consistent cw1 (AList.update slot_A [''AT'', ''BE''] cw1_doms0)
   \<and> ac3 cw1 None cw1_doms0 = Inr (True, cw1_doms1)
   \<and> only_removes cw1_doms0 cw1_doms1
   \<and> node_consistent cw1 cw1_doms1"
proof -
  have r: "revise cw1 slot_A slot_C cw1_doms0 = Inr (True, AList.update slot_A [''AT'', ''BE''] cw1_doms0)"
    by code_simp
  have d: "distinct (words cw1)" by code_simp
  show ?thesis
    using domain_length_invariant[where cw = cw1 and doms = "init_domains cw1"
        and doms_n = cw1_doms0 and ds = cw1_doms0 and x = slot_A and y = slot_C and r = True
        and ds_r = "AList.update slot_A [''AT'', ''BE''] cw1_doms0"
        and arcs = None and b = True and ds_a = cw1_doms1]
      cw1_node_consistency cw1_ac3 r d
    by simp
qed

end
